theory Spec2Isabelle
  imports Complex_Main "HOL-Library.Word" "HOL-Library.Multiset"
begin

unbundle bit_operations_syntax

section \<open>Data model (tfa.h, main.h)\<close>

type_synonym u8 = "8 word"
type_synonym u16 = "16 word"

text \<open>
  \<^verbatim>\<open>int8_t\<close> values are modelled as \<^typ>\<open>int\<close> with the two's-complement wrap-around
  written out by \<open>int8\<close> at every arithmetic update.
\<close>

definition int8 :: "int \<Rightarrow> int" where
  "int8 x = (x + 128) mod 256 - 128"

definition TFA_BITS :: int where "TFA_BITS = 36"
definition TFA_BUF_BYTES :: nat where "TFA_BUF_BYTES = 5"
definition TFA_PACKETS :: nat where "TFA_PACKETS = 7"
definition TFA_TYPE :: u8 where "TFA_TYPE = 0x90"

definition TFA_NEW_PACKETS :: u8 where "TFA_NEW_PACKETS = push_bit 0 1"
definition TFA_NEW_PACKET :: u8 where "TFA_NEW_PACKET = push_bit 1 1"
definition TFA_SYNC :: u8 where "TFA_SYNC = push_bit 6 1"
definition TFA_LOW_BATT :: u8 where "TFA_LOW_BATT = push_bit 7 1"

definition SENSOR_CHANNELS :: nat where "SENSOR_CHANNELS = 3"

text \<open>
  \<^verbatim>\<open>TTFA\<close>: the hand-off structure shared by the tick interrupt and the main loop.
  \<open>tfa_data\<close> is the 7 x 5 byte array \<^verbatim>\<open>data\<close>, \<open>tfa_packet\<close> the 5 byte array
  \<^verbatim>\<open>packet\<close>.
\<close>

record TTFA =
  tfa_data :: "u8 list list"
  tfa_packets :: u8
  tfa_packet :: "u8 list"
  tfa_flags :: u8

text \<open>
  \<^verbatim>\<open>TSensor\<close>. The C field \<^verbatim>\<open>temp\<close> is a \<^verbatim>\<open>float\<close>; it is modelled as the exact real
  number \<open>0.1 * n\<close> for the 16-bit signed integer \<open>n\<close> it is computed from (the rounding
  of single-precision arithmetic is not modelled).
\<close>

record TSensor =
  sens_id :: u8
  sens_channel :: u8
  sens_temp :: real
  sens_rh :: u8
  sens_type :: u8
  sens_flags :: u8

section \<open>Packet reconciler: \<^verbatim>\<open>tfa_proc_packets\<close> (tfa.c)\<close>

text \<open>
  The local variables of the voting loops: \<^verbatim>\<open>counts[]\<close>, \<^verbatim>\<open>maxv[0]\<close>, \<^verbatim>\<open>maxv[1]\<close>
  and \<^verbatim>\<open>maxid\<close>.
\<close>

record vote =
  counts :: "int list"
  maxv0 :: int
  maxv1 :: int
  maxid :: nat

text \<open>\<^verbatim>\<open>!memcmp(a, b, n)\<close>: the first \<open>n\<close> bytes agree.\<close>

definition memcmp_eq :: "u8 list \<Rightarrow> u8 list \<Rightarrow> nat \<Rightarrow> bool" where
  "memcmp_eq a b n = (take n a = take n b)"

text \<open>The body of the inner loop \<^verbatim>\<open>for(n ...)\<close> for fixed \<open>m\<close>.\<close>

definition vote_inner :: "u8 list list \<Rightarrow> nat \<Rightarrow> vote \<Rightarrow> nat \<Rightarrow> vote" where
  "vote_inner buf m s n =
     (if counts s ! n = 0 \<and> memcmp_eq (buf ! m) (buf ! n) TFA_BUF_BYTES then
        let s1 = s\<lparr>counts := (counts s)[m := int8 (counts s ! m + 1)]\<rparr>;
            s2 = (if counts s1 ! m > maxv0 s1
                  then s1\<lparr>maxv1 := maxv0 s1, maxv0 := counts s1 ! m, maxid := m\<rparr>
                  else s1)
        in (if counts s2 ! n \<noteq> 0 then s2\<lparr>counts := (counts s2)[n := -1]\<rparr> else s2)
      else s)"

text \<open>The body of the outer loop \<^verbatim>\<open>for(m ...)\<close>, with its \<^verbatim>\<open>continue\<close>.\<close>

definition vote_outer :: "u8 list list \<Rightarrow> nat \<Rightarrow> vote \<Rightarrow> nat \<Rightarrow> vote" where
  "vote_outer buf n_packets s m =
     (if counts s ! m \<noteq> 0 then s
      else foldl (vote_inner buf m) s [0..<n_packets])"

definition vote_init :: vote where
  "vote_init = \<lparr>counts = replicate TFA_PACKETS 0, maxv0 = 0, maxv1 = 0, maxid = 0\<rparr>"

definition vote_loops :: "u8 list list \<Rightarrow> nat \<Rightarrow> vote" where
  "vote_loops buf n_packets = foldl (vote_outer buf n_packets) vote_init [0..<n_packets]"

text \<open>
  \<^verbatim>\<open>tfa_proc_packets\<close> returns its \<^verbatim>\<open>uint8_t\<close> result together with the updated structure.
  The loops index \<^verbatim>\<open>counts\<close> and \<^verbatim>\<open>buf\<close>, arrays of \<^verbatim>\<open>TFA_PACKETS\<close> entries, with every
  \<open>m, n < packets\<close>: a \<^verbatim>\<open>packets\<close> field above \<^verbatim>\<open>TFA_PACKETS\<close> reads and writes outside
  the arrays, which the model reports as \<open>None\<close>.  The interrupt is not interleaved:
  the function works on its private copy \<open>buf\<close>.
\<close>

definition tfa_proc_packets :: "TTFA \<Rightarrow> (u8 \<times> TTFA) option" where
  "tfa_proc_packets tfa =
     (if tfa_flags tfa AND TFA_NEW_PACKETS = 0 then Some (0, tfa)
      else
        let buf = take TFA_PACKETS (tfa_data tfa);
            n_packets = unat (tfa_packets tfa);
            tfa1 = tfa\<lparr>tfa_flags := tfa_flags tfa AND NOT TFA_NEW_PACKETS\<rparr>
        in if n_packets > TFA_PACKETS then None
           else
             let v = vote_loops buf n_packets
             in if maxv0 v = maxv1 v then Some (0, tfa1)
                else Some (1, tfa1\<lparr>tfa_packet := take TFA_BUF_BYTES (buf ! maxid v),
                                   tfa_flags := tfa_flags tfa1 OR TFA_NEW_PACKET\<rparr>))"

section \<open>Sensor field parser: \<^verbatim>\<open>tfa_parse\<close> (tfa.c)\<close>

text \<open>
  \<^verbatim>\<open>*((uint16_t*)&p[i])\<close> on the little-endian AVR: byte \<open>i\<close> is the low byte.
\<close>

definition read_u16 :: "u8 list \<Rightarrow> nat \<Rightarrow> u16" where
  "read_u16 p i = ucast (p ! i) OR push_bit 8 (ucast (p ! (i + 1)))"

text \<open>The local \<^verbatim>\<open>uint16_t temp\<close> after masking and sign extension.\<close>

definition parse_temp :: "u8 list \<Rightarrow> u16" where
  "parse_temp p =
     (let temp = read_u16 p 1 AND 0x0FFF
      in if temp AND 0x0800 \<noteq> 0 then temp OR 0xF000 else temp)"

definition tfa_parse :: "TTFA \<Rightarrow> u8 \<times> TSensor" where
  "tfa_parse tfa =
     (let p = tfa_packet tfa;
          sensor = \<lparr>sens_id = p ! 3 AND 0x0F,
                    sens_channel = 1 + (drop_bit 4 (p ! 2) AND 0x03),
                    sens_temp = 0.1 * real_of_int (sint (parse_temp p)),
                    sens_rh = p ! 0,
                    sens_type = ucast (drop_bit 4 (read_u16 p 3)),
                    sens_flags = TFA_NEW_PACKET OR (p ! 2 AND (TFA_LOW_BATT OR TFA_SYNC))\<rparr>
      in (if sens_type sensor = TFA_TYPE then 1 else 0, sensor))"

section \<open>Pulse timing (tfa.h)\<close>

text \<open>
  The clock frequency \<^verbatim>\<open>F_CPU\<close> is supplied by the build and is a parameter \<open>F\<close> of the
  model.  The timing macros are floating-point constant expressions; they are
  modelled in exact real arithmetic.
\<close>

definition c_int_cast :: "real \<Rightarrow> int" where
  "c_int_cast x = (if 0 \<le> x then \<lfloor>x\<rfloor> else \<lceil>x\<rceil>)"

definition TFA_TICK :: real where "TFA_TICK = 50 / 10 ^ 6"

definition TFA_TIMER :: "real \<Rightarrow> int" where
  "TFA_TIMER F = c_int_cast (TFA_TICK * F / 8) - 1"

definition TFA_TICK_REAL :: "real \<Rightarrow> real" where
  "TFA_TICK_REAL F = 8 * (real_of_int (TFA_TIMER F) + 1) / F"

definition LED_DELAY :: "real \<Rightarrow> real" where
  "LED_DELAY F = 0.25 / TFA_TICK_REAL F"

definition TFA_T_SHORT :: real where "TFA_T_SHORT = 18 / 10 ^ 4"
definition TFA_T_LONG :: real where "TFA_T_LONG = 36 / 10 ^ 4"
definition TFA_T_MID :: real where "TFA_T_MID = 0.5 * (TFA_T_SHORT + TFA_T_LONG)"
definition TFA_T_START :: real where "TFA_T_START = 5 / 10 ^ 3"
definition TFA_T_STOP :: real where "TFA_T_STOP = 0.75 * TFA_T_SHORT"
definition TFA_T_GAP :: real where "TFA_T_GAP = 10 / 10 ^ 3"
definition TFA_T_GLITCH :: real where "TFA_T_GLITCH = 2 / 10 ^ 4"

text \<open>The decision macros; \<open>ticks\<close> is the \<^verbatim>\<open>uint8_t\<close> pulse timer.\<close>

definition TFA_IS_GLITCH :: "real \<Rightarrow> u8 \<Rightarrow> bool" where
  "TFA_IS_GLITCH F ticks = (real (unat ticks) < TFA_T_GLITCH / TFA_TICK_REAL F)"

definition TFA_IS_STOP :: "real \<Rightarrow> u8 \<Rightarrow> bool" where
  "TFA_IS_STOP F ticks = (real (unat ticks) < TFA_T_STOP / TFA_TICK_REAL F)"

definition TFA_IS_HIGH :: "real \<Rightarrow> u8 \<Rightarrow> bool" where
  "TFA_IS_HIGH F ticks = (real (unat ticks) \<ge> TFA_T_MID / TFA_TICK_REAL F)"

definition TFA_IS_START :: "real \<Rightarrow> u8 \<Rightarrow> bool" where
  "TFA_IS_START F ticks = (real (unat ticks) > TFA_T_START / TFA_TICK_REAL F)"

definition TFA_IS_GAP :: "real \<Rightarrow> u8 \<Rightarrow> bool" where
  "TFA_IS_GAP F ticks = (real (unat ticks) > TFA_T_GAP / TFA_TICK_REAL F)"

section \<open>Pulse classifier and packet framer: \<^verbatim>\<open>ISR(TIMER0_COMPA_vect)\<close> (tfa.c)\<close>

text \<open>
  The static variables of the interrupt routine, the structure \<^verbatim>\<open>p_tfa\<close> points to,
  and the packet LED (bit \<^verbatim>\<open>LED_PACKET\<close> of the output port).
\<close>

record isr_state =
  led_delay :: u16
  tfa_old :: u8
  tfa_timer :: u8
  tfa_buf :: "u8 list list"
  tfa_buf_bit :: int
  tfa_buf_packet :: u8
  p_tfa :: TTFA
  led_packet :: bool

definition ARX :: nat where "ARX = 2"

text \<open>
  The bodies of the five branches taken when a low pulse has ended, in the order of
  the source: glitch, stop bit, end of transmission, start bit, data bit.
\<close>

definition framer_glitch :: "isr_state \<Rightarrow> isr_state" where
  "framer_glitch st = st\<lparr>tfa_buf_bit := -1\<rparr>"

definition framer_stop :: "isr_state \<Rightarrow> isr_state" where
  "framer_stop st =
     (if tfa_buf_bit st = 0 then
        let st1 = st\<lparr>tfa_buf_bit := int8 (tfa_buf_bit st - 1)\<rparr>
        in (if unat (tfa_buf_packet st1) < TFA_PACKETS + 1
            then st1\<lparr>tfa_buf_packet := tfa_buf_packet st1 + 1\<rparr>
            else st1)
      else st)"

definition framer_gap :: "isr_state \<Rightarrow> isr_state" where
  "framer_gap st =
     (let st1 =
        (if 3 \<le> unat (tfa_buf_packet st) \<and> unat (tfa_buf_packet st) \<le> TFA_PACKETS
         then st\<lparr>p_tfa := (p_tfa st)\<lparr>tfa_data := tfa_buf st,
                                      tfa_packets := tfa_buf_packet st,
                                      tfa_flags := tfa_flags (p_tfa st) OR TFA_NEW_PACKETS\<rparr>,
                 led_delay := 0,
                 led_packet := True\<rparr>
         else st)
      in st1\<lparr>tfa_buf_packet := 0\<rparr>)"

definition framer_start :: "isr_state \<Rightarrow> isr_state" where
  "framer_start st =
     (let st1 = st\<lparr>tfa_buf_bit := TFA_BITS\<rparr>;
          k = unat (tfa_buf_packet st1)
      in (if k < TFA_PACKETS
          then st1\<lparr>tfa_buf := (tfa_buf st1)[k := (tfa_buf st1 ! k)[TFA_BUF_BYTES - 1 := 0]]\<rparr>
          else st1))"

text \<open>\<open>data\<close> is the value of \<^verbatim>\<open>TFA_IS_HIGH(tfa_timer)\<close>.\<close>

definition framer_data :: "bool \<Rightarrow> isr_state \<Rightarrow> isr_state" where
  "framer_data data st =
     (if tfa_buf_bit st > 0 \<and> unat (tfa_buf_packet st) < TFA_PACKETS then
        let b = int8 (tfa_buf_bit st - 1);
            bit_mask = (push_bit (nat (b AND 0x07)) 1 :: u8);
            k = unat (tfa_buf_packet st);
            i = nat (drop_bit 3 b);
            byte0 = tfa_buf st ! k ! i;
            byte1 = byte0 AND NOT bit_mask;
            byte2 = (if data then byte1 OR bit_mask else byte1)
        in st\<lparr>tfa_buf_bit := b, tfa_buf := (tfa_buf st)[k := (tfa_buf st ! k)[i := byte2]]\<rparr>
      else if tfa_buf_bit st \<ge> 0 then st\<lparr>tfa_buf_bit := int8 (tfa_buf_bit st - 1)\<rparr>
      else st)"

text \<open>
  The branch \<^verbatim>\<open>else if(tfa_rise)\<close>: a low pulse has ended and \<open>tfa_timer\<close> holds its
  duration in ticks.
\<close>

definition pulse_end :: "real \<Rightarrow> isr_state \<Rightarrow> isr_state" where
  "pulse_end F st =
     (if TFA_IS_GLITCH F (tfa_timer st) then framer_glitch st
      else if TFA_IS_STOP F (tfa_timer st) then framer_stop st
      else if TFA_IS_GAP F (tfa_timer st) then framer_gap st
      else if TFA_IS_START F (tfa_timer st) then framer_start st
      else framer_data (TFA_IS_HIGH F (tfa_timer st)) st)"

text \<open>One tick of the interrupt routine; \<open>pind\<close> is the value read from \<^verbatim>\<open>ARX_PIN\<close>.\<close>

definition isr :: "real \<Rightarrow> u8 \<Rightarrow> isr_state \<Rightarrow> isr_state" where
  "isr F pind st =
     (let tfa_state = pind AND push_bit ARX 1;
          tfa_edge = tfa_state XOR tfa_old st;
          tfa_fall = tfa_edge AND tfa_old st;
          tfa_rise = tfa_edge AND tfa_state;
          st1 = st\<lparr>tfa_old := tfa_state\<rparr>;
          st2 = (if tfa_fall \<noteq> 0 then st1\<lparr>tfa_timer := 0\<rparr>
                 else if tfa_rise \<noteq> 0 then pulse_end F st1
                 else st1);
          st3 = (if tfa_timer st2 < 255 then st2\<lparr>tfa_timer := tfa_timer st2 + 1\<rparr> else st2);
          st4 = st3\<lparr>led_delay := led_delay st3 + 1\<rparr>
      in (if real (unat (led_delay st4)) \<ge> LED_DELAY F then st4\<lparr>led_packet := False\<rparr> else st4))"

text \<open>
  The state at reset: the statics are zero, \<^verbatim>\<open>tfa_init\<close> clears \<^verbatim>\<open>flags\<close> of the
  structure it is given and leaves its other fields as they are.
\<close>

definition isr_init :: "TTFA \<Rightarrow> isr_state" where
  "isr_init t = \<lparr>led_delay = 0, tfa_old = 0, tfa_timer = 0,
                  tfa_buf = replicate TFA_PACKETS (replicate TFA_BUF_BYTES 0),
                  tfa_buf_bit = 0, tfa_buf_packet = 0,
                  p_tfa = t\<lparr>tfa_flags := 0\<rparr>, led_packet = False\<rparr>"

text \<open>
  The framer's reaction to one completed low pulse measured as \<open>d\<close> ticks, and to a
  sequence of such pulses.
\<close>

definition feed :: "real \<Rightarrow> isr_state \<Rightarrow> u8 \<Rightarrow> isr_state" where
  "feed F st d = pulse_end F (st\<lparr>tfa_timer := d\<rparr>)"

definition run_pulses :: "real \<Rightarrow> u8 list \<Rightarrow> isr_state \<Rightarrow> isr_state" where
  "run_pulses F ds st = foldl (feed F) st ds"

text \<open>The interrupt routine run over a sequence of samples of the input port.\<close>

definition isr_run :: "real \<Rightarrow> u8 list \<Rightarrow> isr_state \<Rightarrow> isr_state" where
  "isr_run F pins st = foldl (\<lambda>s p. isr F p s) st pins"

section \<open>Channel session manager: the main loop (main.c)\<close>

definition SYST_TALK :: u8 where "SYST_TALK = push_bit 0 1"
definition SYST_HEAD :: u8 where "SYST_HEAD = push_bit 1 1"
definition SCPI_ERR_wrongParamType :: int where "SCPI_ERR_wrongParamType = -104"

record TSystem =
  syst_packets :: u16
  syst_flags :: u8

text \<open>
  The variables of \<^verbatim>\<open>main\<close>.  \<open>tx\<close> lists the calls of \<^verbatim>\<open>tfa_print_sensor\<close> (the
  headers flag and the record printed); \<open>last_error\<close> is the code stored by
  \<^verbatim>\<open>serial_error\<close>.
\<close>

record main_state =
  tfa :: TTFA
  syst :: TSystem
  sensors :: "TSensor list"
  tx :: "(bool \<times> TSensor) list"
  last_error :: "int option"

datatype fault = OutOfBounds

text \<open>Address of element \<open>i\<close> of an array: outside the array it is a fault.\<close>

definition array_index :: "'a list \<Rightarrow> int \<Rightarrow> fault + nat" where
  "array_index xs i = (if 0 \<le> i \<and> i < int (length xs) then Inr (nat i) else Inl OutOfBounds)"

text \<open>
  The body of \<^verbatim>\<open>if(tfa_proc_packets(&tfa))\<close>: parse the reconciled packet, count it,
  store it in its channel slot and report it.
\<close>

definition main_accept :: "main_state \<Rightarrow> fault + main_state" where
  "main_accept ms =
     (let (type_ok, sensor) = tfa_parse (tfa ms)
      in if type_ok \<noteq> 0 then
           let ms1 = ms\<lparr>syst := (syst ms)\<lparr>syst_packets := syst_packets (syst ms) + 1\<rparr>\<rparr>;
               r = (if sens_channel sensor > 0 \<and> unat (sens_channel sensor) \<le> SENSOR_CHANNELS
                    then (case array_index (sensors ms1) (int (unat (sens_channel sensor)) - 1) of
                            Inl e \<Rightarrow> Inl e
                          | Inr i \<Rightarrow>
                              (let dsens = sensors ms1 ! i
                               in if sens_id dsens = 0xFF \<or> sens_id dsens = sens_id sensor
                                  then Inr (ms1\<lparr>sensors := (sensors ms1)[i := sensor]\<rparr>)
                                  else Inr ms1))
                    else Inr ms1)
           in (case r of
                 Inl e \<Rightarrow> Inl e
               | Inr ms2 \<Rightarrow>
                   Inr (if syst_flags (syst ms2) AND SYST_TALK \<noteq> 0
                        then ms2\<lparr>tx := tx ms2 @ [(syst_flags (syst ms2) AND SYST_HEAD \<noteq> 0, sensor)],
                                 tfa := (tfa ms2)\<lparr>tfa_flags := tfa_flags (tfa ms2) AND NOT TFA_NEW_PACKET\<rparr>\<rparr>
                        else ms2))
         else Inr ms)"

text \<open>The offloaded processing step of the main loop.\<close>

definition main_process :: "main_state \<Rightarrow> fault + main_state" where
  "main_process ms =
     (case tfa_proc_packets (tfa ms) of
        None \<Rightarrow> Inl OutOfBounds
      | Some (r, t) \<Rightarrow> if r \<noteq> 0 then main_accept (ms\<lparr>tfa := t\<rparr>) else Inr (ms\<lparr>tfa := t\<rparr>))"

text \<open>
  The handler of the command \<^verbatim>\<open>TFA:SYNC\<close>.  \<open>par\<close> is \<open>None\<close> when the command has no
  parameter and \<open>Some a\<close> when it has one, \<open>a\<close> being the value of \<^verbatim>\<open>atoi(par)\<close>, which
  the assignment to \<^verbatim>\<open>uint8_t chn\<close> truncates.
\<close>

definition sync_slot :: "TSensor list \<Rightarrow> nat \<Rightarrow> TSensor list" where
  "sync_slot ss k = ss[k := (ss ! k)\<lparr>sens_id := 0xFF\<rparr>]"

definition cmd_sync :: "int option \<Rightarrow> main_state \<Rightarrow> main_state" where
  "cmd_sync par ms =
     (let chn = (case par of None \<Rightarrow> 0 | Some a \<Rightarrow> (word_of_int a :: u8))
      in if par \<noteq> None \<and> (chn < 1 \<or> unat chn > SENSOR_CHANNELS)
         then ms\<lparr>last_error := Some SCPI_ERR_wrongParamType\<rparr>
         else if chn = 0
         then ms\<lparr>sensors := foldl sync_slot (sensors ms) [0..<SENSOR_CHANNELS]\<rparr>
         else ms\<lparr>sensors := sync_slot (sensors ms) (unat chn - 1)\<rparr>)"

section \<open>Specification-level notions\<close>

text \<open>
  The tagged result of the pulse classifier, in the words of the specification:
  the tests are tried in the order glitch, stop, gap, start; what remains is a data
  bit, which is 1 when the duration is at or above the midpoint of the two data-bit
  reference durations.  Durations and thresholds are in ticks.
\<close>

datatype pulse_kind = Glitch | Stop | Gap | Start | Data bool

definition spec_classify :: "real \<Rightarrow> nat \<Rightarrow> pulse_kind" where
  "spec_classify F d =
     (let tick = TFA_TICK_REAL F; x = real d
      in if x < TFA_T_GLITCH / tick then Glitch
         else if x < TFA_T_STOP / tick then Stop
         else if x > TFA_T_GAP / tick then Gap
         else if x > TFA_T_START / tick then Start
         else Data (x \<ge> ((TFA_T_SHORT + TFA_T_LONG) / 2) / tick))"

text \<open>A hand-off structure with all bytes zero, used in examples.\<close>

definition tfa_blank :: TTFA where
  "tfa_blank = \<lparr>tfa_data = replicate 7 (replicate 5 0), tfa_packets = 0,
                 tfa_packet = replicate 5 0, tfa_flags = 0\<rparr>"

text \<open>An empty channel slot and a state of the main loop, used in examples.\<close>

definition slot_empty :: TSensor where
  "slot_empty = \<lparr>sens_id = 0xFF, sens_channel = 0, sens_temp = 0, sens_rh = 0, sens_type = 0, sens_flags = 0\<rparr>"

definition ms_example :: "u8 list \<Rightarrow> main_state" where
  "ms_example p = \<lparr>tfa = tfa_blank\<lparr>tfa_packet := p\<rparr>,
                    syst = \<lparr>syst_packets = 41, syst_flags = SYST_TALK OR SYST_HEAD\<rparr>,
                    sensors = [slot_empty, slot_empty\<lparr>sens_id := 7\<rparr>, slot_empty],
                    tx = [], last_error = None\<rparr>"

text \<open>
  Bit \<open>p\<close> of a capture, counting through its bytes from bit 0 of byte 0: byte
  \<open>p div 8\<close>, bit \<open>p mod 8\<close>.
\<close>

definition cap_bit :: "u8 list \<Rightarrow> nat \<Rightarrow> bool" where
  "cap_bit cap p = bit (cap ! (p div 8)) (p mod 8)"

text \<open>
  The pulses \<open>ds\<close> are classified as data bits with the values \<open>bs\<close>, one by one.
\<close>

definition data_pulses :: "real \<Rightarrow> u8 list \<Rightarrow> bool list \<Rightarrow> bool" where
  "data_pulses F ds bs = list_all2 (\<lambda>d b. spec_classify F (unat d) = Data b) ds bs"

text \<open>
  A sensor reading as the specification describes it: humidity, temperature in tenths
  of a degree (12-bit two's complement), channel 1..4, sync and low-battery flags, a
  4-bit identity and the type tag.  \<open>encode_bytes\<close> lays it out in five bytes as the
  byte layout table of the specification says; \<open>encode_bits\<close> lists the 36 bits in the
  order of transmission, bit 35 of the layout first; \<open>sensor_of\<close> is the record
  \<^verbatim>\<open>tfa_parse\<close> is expected to produce.
\<close>

record reading =
  rd_rh :: u8
  rd_tenths :: int
  rd_channel :: u8
  rd_sync :: bool
  rd_low_batt :: bool
  rd_identity :: u8
  rd_type :: u8

definition valid_reading :: "reading \<Rightarrow> bool" where
  "valid_reading r =
     (- 2048 \<le> rd_tenths r \<and> rd_tenths r < 2048 \<and> 1 \<le> rd_channel r \<and> rd_channel r \<le> 4
      \<and> rd_identity r < 16)"

definition encode_bytes :: "reading \<Rightarrow> u8 list" where
  "encode_bytes r =
     (let t = (word_of_int (rd_tenths r) :: u16) AND 0x0FFF
      in [rd_rh r,
          ucast t,
          ucast (drop_bit 8 t) OR push_bit 4 (rd_channel r - 1)
            OR (if rd_sync r then push_bit 6 1 else 0)
            OR (if rd_low_batt r then push_bit 7 1 else 0),
          rd_identity r OR push_bit 4 (rd_type r AND 0x0F),
          drop_bit 4 (rd_type r)])"

definition encode_bits :: "reading \<Rightarrow> bool list" where
  "encode_bits r = map (\<lambda>i. cap_bit (encode_bytes r) (35 - i)) [0..<36]"

definition sensor_of :: "reading \<Rightarrow> TSensor" where
  "sensor_of r =
     \<lparr>sens_id = rd_identity r,
      sens_channel = rd_channel r,
      sens_temp = 0.1 * real_of_int (rd_tenths r),
      sens_rh = rd_rh r,
      sens_type = rd_type r,
      sens_flags = TFA_NEW_PACKET OR (if rd_low_batt r then TFA_LOW_BATT else 0)
                     OR (if rd_sync r then TFA_SYNC else 0)\<rparr>"

text \<open>An example reading, and nominal durations (in ticks at 8 MHz) for data bits.\<close>

definition reading_example :: reading where
  "reading_example = \<lparr>rd_rh = 45, rd_tenths = -8, rd_channel = 2, rd_sync = False,
                        rd_low_batt = True, rd_identity = 9, rd_type = 0x90\<rparr>"

definition data_durations :: "bool list \<Rightarrow> u8 list" where
  "data_durations bs = map (\<lambda>b. if b then 72 else 36) bs"

text \<open>
  Pulse sequences at 8 MHz used as examples.  \<open>repetition_example\<close> is one complete
  repetition of the example reading: a start pulse, its 36 data pulses and a stop
  pulse.  \<open>clean_burst\<close> is a burst of two repetitions closed by a gap;
  \<open>stray_burst\<close> is the same burst preceded by one low pulse of stop length;
  \<open>resumed_burst\<close> is a repetition that loses its stop pulse to a gap, followed by a
  pulse of stop length and the burst of two repetitions.
\<close>

definition repetition_example :: "u8 list" where
  "repetition_example = 150 # data_durations (encode_bits reading_example) @ [10]"

definition clean_burst :: "u8 list" where
  "clean_burst = repetition_example @ repetition_example @ [250]"

definition stray_burst :: "u8 list" where
  "stray_burst = 10 # repetition_example @ repetition_example @ [250]"

definition resumed_burst :: "u8 list" where
  "resumed_burst = butlast repetition_example @ [250, 10] @ repetition_example
                     @ repetition_example @ [250]"

text \<open>
  Notions for the analysis of the voting loops.  \<open>same\<close> is the comparison the loops
  make between captures \<open>m\<close> and \<open>n\<close>; \<open>later buf m n\<close> counts the captures after \<open>m\<close>
  and before \<open>n\<close> that equal capture \<open>m\<close>; \<open>spare\<close> counts the captures from \<open>n\<close> on,
  other than \<open>m\<close>, that equal capture \<open>m\<close> and whose count is zero; \<open>first_of_group\<close>
  says that no earlier capture equals capture \<open>m\<close>; \<open>maj\<close> says that capture \<open>j\<close>
  equals the packet \<open>v\<close>.  \<open>tie_free\<close> and \<open>sel_ok\<close> are the two facts the loops
  maintain about \<^verbatim>\<open>maxv\<close> and \<^verbatim>\<open>maxid\<close>, \<open>inner_upto\<close> and \<open>outer_upto\<close> are the loops
  cut after \<open>n\<close> and \<open>m\<close> iterations, and \<open>vote_inv\<close> is the invariant of the outer
  loop.
\<close>

definition same :: "u8 list list \<Rightarrow> nat \<Rightarrow> nat \<Rightarrow> bool" where
  "same buf m n = memcmp_eq (buf ! m) (buf ! n) TFA_BUF_BYTES"

definition later :: "u8 list list \<Rightarrow> nat \<Rightarrow> nat \<Rightarrow> nat" where
  "later buf m n = card {j. m < j \<and> j < n \<and> same buf m j}"

definition spare :: "u8 list list \<Rightarrow> int list \<Rightarrow> nat \<Rightarrow> nat \<Rightarrow> nat" where
  "spare buf c m n = card {j. n \<le> j \<and> j < TFA_PACKETS \<and> j \<noteq> m \<and> same buf m j \<and> c ! j = 0}"

definition first_of_group :: "u8 list list \<Rightarrow> nat \<Rightarrow> bool" where
  "first_of_group buf m = (\<forall>j<m. \<not> same buf m j)"

definition maj :: "u8 list list \<Rightarrow> u8 list \<Rightarrow> nat \<Rightarrow> bool" where
  "maj buf v j = memcmp_eq (buf ! j) v TFA_BUF_BYTES"

definition tie_free :: "vote \<Rightarrow> bool" where
  "tie_free s = (maxv1 s < maxv0 s \<or> maxv0 s = 0 \<and> maxv1 s = 0)"

definition sel_ok :: "u8 list list \<Rightarrow> u8 list \<Rightarrow> vote \<Rightarrow> bool" where
  "sel_ok buf v s = (if 2 \<le> maxv0 s then maxid s < TFA_PACKETS \<and> maj buf v (maxid s) else True)"

definition inner_upto :: "u8 list list \<Rightarrow> nat \<Rightarrow> vote \<Rightarrow> nat \<Rightarrow> vote" where
  "inner_upto buf m s n = foldl (vote_inner buf m) s [0..<n]"

definition vote_inv :: "u8 list list \<Rightarrow> u8 list \<Rightarrow> nat \<Rightarrow> vote \<Rightarrow> bool" where
  "vote_inv buf v m s =
     (length (counts s) = TFA_PACKETS
      \<and> (\<forall>j. m \<le> j \<and> j < TFA_PACKETS \<longrightarrow> counts s ! j = 0)
      \<and> (\<forall>f<m. first_of_group buf f \<longrightarrow> counts s ! f = int (later buf f TFA_PACKETS) - 1)
      \<and> 0 \<le> maxv0 s \<and> (0 < m \<longrightarrow> 1 \<le> maxv0 s)
      \<and> sel_ok buf v s \<and> tie_free s
      \<and> ((\<exists>i<m. maj buf v i) \<longrightarrow> 2 \<le> maxv0 s))"

definition outer_upto :: "u8 list list \<Rightarrow> nat \<Rightarrow> vote" where
  "outer_upto buf m = foldl (vote_outer buf TFA_PACKETS) vote_init [0..<m]"

text \<open>A burst of seven captures, four of them identical, used as an example.\<close>

definition burst_example :: "u8 list list" where
  "burst_example = [[46, 248, 159, 9, 9], [45, 248, 159, 9, 9], [45, 248, 159, 9, 1],
                    [45, 248, 159, 9, 9], [45, 248, 159, 9, 9], [46, 248, 159, 9, 9],
                    [45, 248, 159, 9, 9]]"

section \<open>The thresholds at 8 MHz\<close>

text \<open>
  main.c names 8 MHz as the clock of the demo.  The tick is then exactly 50 us and
  the thresholds are 4, 27, 54, 100 and 200 ticks.
\<close>

lemma tick_real_8MHz: "TFA_TICK_REAL 8000000 = 1 / 20000"
  by (simp add: TFA_TICK_REAL_def TFA_TIMER_def TFA_TICK_def c_int_cast_def)

lemma spec_classify_8MHz:
  "spec_classify 8000000 d =
     (if d < 4 then Glitch else if d < 27 then Stop else if d > 200 then Gap
      else if d > 100 then Start else Data (d \<ge> 54))"
  by (simp add: spec_classify_def tick_real_8MHz TFA_T_GLITCH_def TFA_T_STOP_def TFA_T_GAP_def
      TFA_T_START_def TFA_T_SHORT_def TFA_T_LONG_def Let_def del: of_nat_unat)

section \<open>The tick of the interrupt routine\<close>

text \<open>
  While the input is low the routine only counts: the tick of the falling edge sets
  the pulse timer to 1, every further low tick adds 1 up to 255, and the framer's
  variables stay as they are.  The tick of the rising edge runs \<open>pulse_end\<close> on the
  measured duration.
\<close>

lemma isr_low_tick:
  assumes "pind AND push_bit ARX 1 = 0"
  shows "tfa_old (isr F pind st) = 0"
    and "tfa_timer (isr F pind st) =
           (if tfa_old st \<noteq> 0 then 1 else if tfa_timer st < 255 then tfa_timer st + 1 else tfa_timer st)"
    and "tfa_buf (isr F pind st) = tfa_buf st"
    and "tfa_buf_bit (isr F pind st) = tfa_buf_bit st"
    and "tfa_buf_packet (isr F pind st) = tfa_buf_packet st"
    and "p_tfa (isr F pind st) = p_tfa st"
  using assms by (simp_all add: isr_def Let_def)

lemma pulse_end_tfa_old:
  "pulse_end F (st\<lparr>tfa_old := x\<rparr>) = (pulse_end F st)\<lparr>tfa_old := x\<rparr>"
  by (simp add: pulse_end_def framer_glitch_def framer_stop_def framer_gap_def framer_start_def
      framer_data_def Let_def)

lemma isr_rising_tick:
  assumes "tfa_old st = 0" and "pind AND push_bit ARX 1 \<noteq> 0"
  shows "tfa_buf (isr F pind st) = tfa_buf (pulse_end F st)"
    and "tfa_buf_bit (isr F pind st) = tfa_buf_bit (pulse_end F st)"
    and "tfa_buf_packet (isr F pind st) = tfa_buf_packet (pulse_end F st)"
    and "p_tfa (isr F pind st) = p_tfa (pulse_end F st)"
  using assms by (simp_all add: isr_def Let_def pulse_end_tfa_old)

lemma isr_low_pulse_timer:
  assumes "\<forall>p \<in> set pins. p AND push_bit ARX 1 = 0" and "tfa_old st \<noteq> 0"
  shows "pins \<noteq> [] \<Longrightarrow> unat (tfa_timer (isr_run F pins st)) = min (length pins) 255
       \<and> tfa_old (isr_run F pins st) = 0
       \<and> tfa_buf (isr_run F pins st) = tfa_buf st
       \<and> tfa_buf_bit (isr_run F pins st) = tfa_buf_bit st
       \<and> tfa_buf_packet (isr_run F pins st) = tfa_buf_packet st
       \<and> p_tfa (isr_run F pins st) = p_tfa st"
  using assms(1)
proof (induction pins rule: rev_induct)
  case Nil
  then show ?case by simp
next
  case (snoc p pins)
  have p0: "p AND push_bit ARX 1 = 0" using snoc.prems(2) by simp
  let ?t = "isr_run F pins st"
  have r: "isr_run F (pins @ [p]) st = isr F p ?t" by (simp add: isr_run_def)
  note L = isr_low_tick [OF p0, of F ?t]
  show ?case
  proof (cases "pins = []")
    case True
    then have "?t = st" by (simp add: isr_run_def)
    with L assms(2) True show ?thesis by (simp add: isr_run_def)
  next
    case False
    with snoc have IH: "unat (tfa_timer ?t) = min (length pins) 255" "tfa_old ?t = 0"
      "tfa_buf ?t = tfa_buf st" "tfa_buf_bit ?t = tfa_buf_bit st"
      "tfa_buf_packet ?t = tfa_buf_packet st" "p_tfa ?t = p_tfa st"
      by simp_all
    have "unat (tfa_timer (isr F p ?t)) = min (Suc (length pins)) 255"
    proof (cases "tfa_timer ?t < 255")
      case True
      then have "unat (tfa_timer ?t) < 255" by (simp add: word_less_nat_alt)
      moreover from this have "unat (tfa_timer ?t + 1) = unat (tfa_timer ?t) + 1"
        by (simp add: unat_word_ariths)
      ultimately show ?thesis using L(2) IH(1,2) True by (simp add: min_def split: if_splits)
    next
      case False
      then have "unat (tfa_timer ?t) = 255"
        using unsigned_less [of "tfa_timer ?t", where 'a = nat] by (simp add: word_less_nat_alt)
      with L(2) IH(1,2) False show ?thesis by (simp add: min_def split: if_splits)
    qed
    with L IH show ?thesis by (simp add: r)
  qed
qed

section \<open>Pulse classifier\<close>

lemma pulse_end_dispatch:
  "pulse_end F st =
     (case spec_classify F (unat (tfa_timer st)) of
        Glitch \<Rightarrow> framer_glitch st
      | Stop \<Rightarrow> framer_stop st
      | Gap \<Rightarrow> framer_gap st
      | Start \<Rightarrow> framer_start st
      | Data b \<Rightarrow> framer_data b st)"
  by (simp add: pulse_end_def spec_classify_def TFA_IS_GLITCH_def TFA_IS_STOP_def
      TFA_IS_GAP_def TFA_IS_START_def TFA_IS_HIGH_def TFA_T_MID_def Let_def del: of_nat_unat)

text \<open>
  Claim C5.  The reaction of the interrupt routine to a completed low pulse of
  duration \<open>d\<close> ticks is the dispatch over the classifier's tagged result, the tests
  being tried in the order glitch, stop, gap, start, and what remains being a data
  bit whose value is 1 exactly when \<open>d\<close> is at or above the midpoint threshold; the
  midpoint \<^verbatim>\<open>TFA_T_MID\<close> is the average of the short and the long reference duration.
\<close>

theorem classifier_priority_chain:
  "pulse_end F st =
     (case spec_classify F (unat (tfa_timer st)) of
        Glitch \<Rightarrow> framer_glitch st
      | Stop \<Rightarrow> framer_stop st
      | Gap \<Rightarrow> framer_gap st
      | Start \<Rightarrow> framer_start st
      | Data b \<Rightarrow> framer_data b st)
   \<and> TFA_T_MID = (TFA_T_SHORT + TFA_T_LONG) / 2"
  by (simp add: pulse_end_dispatch TFA_T_MID_def)

section \<open>Packet framer\<close>

text \<open>
  Claim C9.  A pulse shorter than the glitch threshold is classified as a glitch,
  and the framer's whole reaction is to set the bit countdown to -1: the repetition
  index and every byte of the capture buffer stay as they were.  The same holds for
  the whole tick of the interrupt routine on which such a pulse ends.
\<close>

theorem glitch_aborts_only_repetition:
  assumes "real (unat (tfa_timer st)) < TFA_T_GLITCH / TFA_TICK_REAL F"
  shows "spec_classify F (unat (tfa_timer st)) = Glitch
       \<and> pulse_end F st = st\<lparr>tfa_buf_bit := -1\<rparr>
       \<and> tfa_buf_packet (pulse_end F st) = tfa_buf_packet st
       \<and> tfa_buf (pulse_end F st) = tfa_buf st
       \<and> (tfa_old st = 0 \<and> pind AND push_bit ARX 1 \<noteq> 0 \<longrightarrow>
            tfa_buf_bit (isr F pind st) = -1
          \<and> tfa_buf_packet (isr F pind st) = tfa_buf_packet st
          \<and> tfa_buf (isr F pind st) = tfa_buf st
          \<and> p_tfa (isr F pind st) = p_tfa st)"
proof -
  have a: "spec_classify F (unat (tfa_timer st)) = Glitch"
    using assms by (simp add: spec_classify_def Let_def del: of_nat_unat)
  have b: "pulse_end F st = st\<lparr>tfa_buf_bit := -1\<rparr>"
    using assms by (simp add: pulse_end_def TFA_IS_GLITCH_def framer_glitch_def del: of_nat_unat)
  have c: "tfa_buf_bit (isr F pind st) = -1
          \<and> tfa_buf_packet (isr F pind st) = tfa_buf_packet st
          \<and> tfa_buf (isr F pind st) = tfa_buf st
          \<and> p_tfa (isr F pind st) = p_tfa st"
    if "tfa_old st = 0 \<and> pind AND push_bit ARX 1 \<noteq> 0"
    using that isr_rising_tick [of st pind F] by (simp add: b)
  from a b c show ?thesis by simp
qed

theorem glitch_aborts_only_repetition_witness:
  "real (unat (tfa_timer (isr_init tfa_blank\<lparr>tfa_timer := 2, tfa_buf_bit := 20, tfa_buf_packet := 3\<rparr>)))
     < TFA_T_GLITCH / TFA_TICK_REAL 8000000
   \<and> tfa_old (isr_init tfa_blank\<lparr>tfa_timer := 2, tfa_buf_bit := 20, tfa_buf_packet := 3\<rparr>) = 0
   \<and> (4 :: u8) AND push_bit ARX 1 \<noteq> 0
   \<and> tfa_buf_bit (pulse_end 8000000
        (isr_init tfa_blank\<lparr>tfa_timer := 2, tfa_buf_bit := 20, tfa_buf_packet := 3\<rparr>)) = -1
   \<and> tfa_buf_packet (pulse_end 8000000
        (isr_init tfa_blank\<lparr>tfa_timer := 2, tfa_buf_bit := 20, tfa_buf_packet := 3\<rparr>)) = 3
   \<and> tfa_buf_bit (isr 8000000 4
        (isr_init tfa_blank\<lparr>tfa_timer := 2, tfa_buf_bit := 20, tfa_buf_packet := 3\<rparr>)) = -1
   \<and> tfa_buf_packet (isr 8000000 4
        (isr_init tfa_blank\<lparr>tfa_timer := 2, tfa_buf_bit := 20, tfa_buf_packet := 3\<rparr>)) = 3"
proof -
  let ?st = "isr_init tfa_blank\<lparr>tfa_timer := 2, tfa_buf_bit := 20, tfa_buf_packet := 3\<rparr>"
  have h: "real (unat (tfa_timer ?st)) < TFA_T_GLITCH / TFA_TICK_REAL 8000000"
    by (simp add: tick_real_8MHz TFA_T_GLITCH_def)
  have o: "tfa_old ?st = 0" by (simp add: isr_init_def)
  have p: "(4 :: u8) AND push_bit ARX 1 \<noteq> 0" by (simp add: ARX_def)
  from glitch_aborts_only_repetition [OF h, of 4] h o p show ?thesis
    by simp
qed

text \<open>
  The gap branch.  On an inter-burst gap the framer copies the whole capture buffer,
  the repetition index and the new-burst flag into the hand-off structure exactly when
  the index is between 3 and 7; otherwise nothing but the index changes.  In both
  cases the index becomes 0.  With an index below 3 the hand-off structure is
  untouched, and if its new-burst flag was clear the reconciler then returns 0.
\<close>

lemma framer_gap_effect:
  assumes "spec_classify F (unat (tfa_timer st)) = Gap"
  shows "pulse_end F st =
           (if 3 \<le> unat (tfa_buf_packet st) \<and> unat (tfa_buf_packet st) \<le> 7
            then st\<lparr>p_tfa := (p_tfa st)\<lparr>tfa_data := tfa_buf st,
                                         tfa_packets := tfa_buf_packet st,
                                         tfa_flags := tfa_flags (p_tfa st) OR TFA_NEW_PACKETS\<rparr>,
                    led_delay := 0, led_packet := True, tfa_buf_packet := 0\<rparr>
            else st\<lparr>tfa_buf_packet := 0\<rparr>)
       \<and> tfa_buf_packet (pulse_end F st) = 0
       \<and> (unat (tfa_buf_packet st) < 3 \<longrightarrow>
            p_tfa (pulse_end F st) = p_tfa st
          \<and> (tfa_flags (p_tfa st) AND TFA_NEW_PACKETS = 0 \<longrightarrow>
               tfa_proc_packets (p_tfa (pulse_end F st)) = Some (0, p_tfa st)))"
  using assms
  by (simp add: pulse_end_dispatch framer_gap_def TFA_PACKETS_def Let_def tfa_proc_packets_def)

section \<open>Sensor field parser\<close>

subsection \<open>Sign extension of the temperature field\<close>

lemma mask12: "(0x0FFF :: u16) = mask 12" by (simp add: mask_eq_exp_minus_1)

lemma sign_extend_12:
  fixes w :: u16
  shows "(let temp = w AND 0x0FFF in if temp AND 0x0800 \<noteq> 0 then temp OR 0xF000 else temp)
         = signed_take_bit 11 w"
proof -
  have b11: "(w AND 0x0FFF) AND 0x0800 \<noteq> 0 \<longleftrightarrow> bit w 11"
  proof -
    have e: "(0x0800 :: u16) = 2 ^ 11" by simp
    have "(w AND mask 12) AND 2 ^ 11 = w AND 2 ^ 11"
      by (rule bit_eqI) (auto simp only: bit_and_iff bit_mask_iff bit_exp_iff)
    then show ?thesis
      unfolding e mask12 by (simp only: and_exp_eq_0_iff_not_bit not_not)
  qed
  have m: "(0x0FFF :: u16) = mask 12" by (rule mask12)
  have n: "(0xF000 :: u16) = NOT (mask 12)" by (simp add: mask_eq_exp_minus_1)
  have lhs: "(let temp = w AND 0x0FFF in if temp AND 0x0800 \<noteq> 0 then temp OR 0xF000 else temp)
      = (if bit w 11 then (w AND mask 12) OR NOT (mask 12) else w AND mask 12)"
    unfolding Let_def b11 by (simp only: m n)
  have "(if bit w 11 then (w AND mask 12) OR NOT (mask 12) else w AND mask 12) = signed_take_bit 11 w"
  proof (rule bit_eqI)
    fix k
    assume "possible_bit TYPE(u16) k"
    then have k: "k < 16" by simp
    consider "k < 11" | "k = 11" | "12 \<le> k" by linarith
    then show "bit (if bit w 11 then (w AND mask 12) OR NOT (mask 12) else w AND mask 12) k
        = bit (signed_take_bit 11 w) k"
      using k by cases (auto simp: bit_simps min_def dest: bit_imp_le_length)
  qed
  with lhs show ?thesis by simp
qed

lemma sint_signed_take_bit_16:
  fixes w :: u16
  shows "sint (signed_take_bit 11 w) = signed_take_bit 11 (uint w)"
  by (auto simp: bit_eq_iff bit_simps min_def)

lemma stb11: "signed_take_bit 11 (k::int) = (if take_bit 12 k < 2048 then take_bit 12 k else take_bit 12 k - 4096)"
proof -
  have "bit k 11 \<longleftrightarrow> \<not> take_bit 12 k < 2048"
  proof -
    have "take_bit 12 k = take_bit 11 k + 2048 * of_bool (bit k 11)"
      using take_bit_Suc_from_most[of 11 k] by simp
    moreover have "0 \<le> take_bit 11 k" "take_bit 11 k < 2048"
      using take_bit_int_less_exp[of 11 k] by simp_all
    ultimately show ?thesis by (cases "bit k 11") simp_all
  qed
  then show ?thesis
    by (simp add: signed_take_bit_eq_take_bit_minus)
qed

lemma sint_parse_temp:
  "sint (parse_temp p) =
     (let raw = uint (read_u16 p 1 AND 0x0FFF) in if raw < 2048 then raw else raw - 4096)"
proof -
  have "uint (read_u16 p 1 AND 0x0FFF) = take_bit 12 (uint (read_u16 p 1))"
    by (simp add: mask12 unsigned_take_bit_eq flip: take_bit_eq_mask)
  then show ?thesis
    using sign_extend_12[of "read_u16 p 1"]
    by (simp add: parse_temp_def sint_signed_take_bit_16 stb11 Let_def)
qed

lemma bit_signed_take_bit_11:
  fixes w :: u16
  shows "bit (signed_take_bit 11 w) k = (k < 16 \<and> (if k < 11 then bit w k else bit w 11))"
  by (auto simp: bit_simps min_def dest: bit_imp_le_length)

text \<open>
  Claim C8.  For every packet the temperature variable of \<^verbatim>\<open>tfa_parse\<close> keeps the low
  12 bits of \<open>b2<<8 | b1\<close>, carries bit 11 in each of the bits 12 to 15, and read as
  a signed 16-bit integer is the two's-complement value of the 12-bit field; the
  reported temperature is that integer times 0.1.  Raw 4088 gives -8 tenths, that is
  -0.8, and raw 0x800 gives -204.8.
\<close>

theorem temperature_sign_extension:
  "(\<forall>i \<in> {12..15}. bit (parse_temp (tfa_packet t)) i = bit (parse_temp (tfa_packet t)) 11)
   \<and> parse_temp (tfa_packet t) AND 0x0FFF = read_u16 (tfa_packet t) 1 AND 0x0FFF
   \<and> sint (parse_temp (tfa_packet t)) =
       (let raw = uint (read_u16 (tfa_packet t) 1 AND 0x0FFF)
        in if raw < 2048 then raw else raw - 4096)
   \<and> sens_temp (snd (tfa_parse t)) = 0.1 * real_of_int (sint (parse_temp (tfa_packet t)))
   \<and> (read_u16 (tfa_packet t) 1 AND 0x0FFF = 4088 \<longrightarrow>
        sint (parse_temp (tfa_packet t)) = -8 \<and> sens_temp (snd (tfa_parse t)) = -0.8)
   \<and> (read_u16 (tfa_packet t) 1 AND 0x0FFF = 0x800 \<longrightarrow>
        sint (parse_temp (tfa_packet t)) = -2048 \<and> sens_temp (snd (tfa_parse t)) = -204.8)"
proof -
  let ?p = "tfa_packet t"
  have st: "parse_temp ?p = signed_take_bit 11 (read_u16 ?p 1)"
    using sign_extend_12 [of "read_u16 ?p 1"] by (simp add: parse_temp_def)
  have a: "\<forall>i \<in> {12..15}. bit (parse_temp ?p) i = bit (parse_temp ?p) 11"
    unfolding st by (simp add: bit_signed_take_bit_11)
  have b: "parse_temp ?p AND 0x0FFF = read_u16 ?p 1 AND 0x0FFF"
  proof (rule bit_eqI)
    fix k
    assume "possible_bit TYPE(u16) k"
    consider "k < 11" | "k = 11" | "12 \<le> k" by linarith
    then show "bit (parse_temp ?p AND 0x0FFF) k = bit (read_u16 ?p 1 AND 0x0FFF) k"
      unfolding st mask12 
      by cases (auto simp: bit_and_iff bit_mask_iff bit_signed_take_bit_11 dest: bit_imp_le_length)
  qed
  have c: "sens_temp (snd (tfa_parse t)) = 0.1 * real_of_int (sint (parse_temp ?p))"
    by (simp add: tfa_parse_def Let_def)
  note d = sint_parse_temp [of ?p]
  have e: "sint (parse_temp ?p) = -8 \<and> sens_temp (snd (tfa_parse t)) = -0.8"
    if "read_u16 ?p 1 AND 0x0FFF = 4088"
  proof -
    from that d have "sint (parse_temp ?p) = -8" by simp
    with c show ?thesis by simp
  qed
  have f: "sint (parse_temp ?p) = -2048 \<and> sens_temp (snd (tfa_parse t)) = -204.8"
    if "read_u16 ?p 1 AND 0x0FFF = 0x800"
  proof -
    from that d have "sint (parse_temp ?p) = -2048" by simp
    with c show ?thesis by simp
  qed
  from a b c d e f show ?thesis
    by blast
qed

theorem temperature_sign_extension_witness:
  "read_u16 (tfa_packet (tfa_blank\<lparr>tfa_packet := [0x2D, 0xF8, 0x0F, 0x00, 0x09]\<rparr>)) 1 AND 0x0FFF = 4088
   \<and> sens_temp (snd (tfa_parse (tfa_blank\<lparr>tfa_packet := [0x2D, 0xF8, 0x0F, 0x00, 0x09]\<rparr>))) = -0.8
   \<and> read_u16 (tfa_packet (tfa_blank\<lparr>tfa_packet := [0x2D, 0x00, 0x08, 0x00, 0x09]\<rparr>)) 1 AND 0x0FFF = 0x800
   \<and> sens_temp (snd (tfa_parse (tfa_blank\<lparr>tfa_packet := [0x2D, 0x00, 0x08, 0x00, 0x09]\<rparr>))) = -204.8"
proof -
  have h1: "read_u16 (tfa_packet (tfa_blank\<lparr>tfa_packet := [0x2D, 0xF8, 0x0F, 0x00, 0x09]\<rparr>)) 1 AND 0x0FFF = 4088"
    by (simp add: read_u16_def)
  have h2: "read_u16 (tfa_packet (tfa_blank\<lparr>tfa_packet := [0x2D, 0x00, 0x08, 0x00, 0x09]\<rparr>)) 1 AND 0x0FFF = 0x800"
    by (simp add: read_u16_def)
  from temperature_sign_extension [of "tfa_blank\<lparr>tfa_packet := [0x2D, 0xF8, 0x0F, 0x00, 0x09]\<rparr>"]
       temperature_sign_extension [of "tfa_blank\<lparr>tfa_packet := [0x2D, 0x00, 0x08, 0x00, 0x09]\<rparr>"]
       h1 h2
  show ?thesis by blast
qed

section \<open>Channel session manager\<close>

lemma parse_channel_range:
  "1 \<le> unat (sens_channel (snd (tfa_parse t))) \<and> unat (sens_channel (snd (tfa_parse t))) \<le> 4"
proof -
  let ?x = "drop_bit 4 (tfa_packet t ! 2) AND (0x03 :: u8)"
  have "?x \<le> 3" by (rule word_and_le1)
  then have "unat ?x \<le> 3" by (simp add: word_le_nat_alt)
  then have "unat (1 + ?x) = 1 + unat ?x"
    by (simp add: unat_word_ariths)
  with \<open>unat ?x \<le> 3\<close> show ?thesis
    by (simp add: tfa_parse_def Let_def)
qed

lemma array_index_ok:
  "0 < n \<Longrightarrow> n \<le> length xs \<Longrightarrow> array_index xs (int n - 1) = Inr (n - 1)"
  by (auto simp: array_index_def nat_diff_distrib')

lemma main_accept_in_range:
  assumes "tfa_parse (tfa ms) = (ok, r)" and "ok \<noteq> 0"
    and "0 < unat (sens_channel r)" and "unat (sens_channel r) \<le> SENSOR_CHANNELS"
    and "length (sensors ms) = SENSOR_CHANNELS"
  shows "\<exists>ms'. main_accept ms = Inr ms'
          \<and> sensors ms' =
              (if sens_id (sensors ms ! (unat (sens_channel r) - 1)) = 0xFF
                  \<or> sens_id (sensors ms ! (unat (sens_channel r) - 1)) = sens_id r
               then (sensors ms)[unat (sens_channel r) - 1 := r] else sensors ms)
          \<and> syst_packets (syst ms') = syst_packets (syst ms) + 1"
proof -
  have "array_index (sensors ms) (int (unat (sens_channel r)) - 1) = Inr (unat (sens_channel r) - 1)"
    using assms(3-5) by (simp add: array_index_ok del: of_nat_unat)
  then show ?thesis
    using assms
    by (simp add: main_accept_def Let_def word_less_nat_alt del: of_nat_unat)
qed

lemma main_accept_out_of_range:
  assumes "tfa_parse (tfa ms) = (ok, r)" and "ok \<noteq> 0"
    and "\<not> (0 < unat (sens_channel r) \<and> unat (sens_channel r) \<le> SENSOR_CHANNELS)"
  shows "\<exists>ms'. main_accept ms = Inr ms' \<and> sensors ms' = sensors ms
          \<and> syst_packets (syst ms') = syst_packets (syst ms) + 1"
  using assms
  by (auto simp: main_accept_def Let_def word_less_nat_alt simp del: of_nat_unat)

lemma main_accept_invalid:
  assumes "tfa_parse (tfa ms) = (ok, r)" and "ok = 0"
  shows "main_accept ms = Inr ms"
  using assms by (simp add: main_accept_def)

text \<open>
  Claim C10.  The channel computed by \<^verbatim>\<open>tfa_parse\<close> is 1 plus a 2-bit field, so it
  lies in 1..4, and a packet with the valid type tag and channel 4 exists.  For such
  a reading the accept path counts the packet and leaves every channel slot as it
  was.  The slot array is indexed only under the guard on the channel, so with its
  three entries the access is never out of bounds.
\<close>

theorem channel_four_counted_not_stored:
  "(fst (tfa_parse (tfa_blank\<lparr>tfa_packet := [50, 0xED, 0x30, 0x05, 0x09]\<rparr>)) = 1
      \<and> sens_channel (snd (tfa_parse (tfa_blank\<lparr>tfa_packet := [50, 0xED, 0x30, 0x05, 0x09]\<rparr>))) = 4)
   \<and> 1 \<le> unat (sens_channel (snd (tfa_parse (tfa ms))))
   \<and> unat (sens_channel (snd (tfa_parse (tfa ms)))) \<le> 4
   \<and> (fst (tfa_parse (tfa ms)) \<noteq> 0 \<and> sens_channel (snd (tfa_parse (tfa ms))) = 4 \<longrightarrow>
        (\<exists>ms'. main_accept ms = Inr ms'
           \<and> sensors ms' = sensors ms
           \<and> syst_packets (syst ms') = syst_packets (syst ms) + 1))
   \<and> (length (sensors ms) = SENSOR_CHANNELS \<longrightarrow> main_accept ms \<noteq> Inl OutOfBounds)"
proof -
  have a: "fst (tfa_parse (tfa_blank\<lparr>tfa_packet := [50, 0xED, 0x30, 0x05, 0x09]\<rparr>)) = 1
      \<and> sens_channel (snd (tfa_parse (tfa_blank\<lparr>tfa_packet := [50, 0xED, 0x30, 0x05, 0x09]\<rparr>))) = 4"
    by (simp add: tfa_parse_def read_u16_def TFA_TYPE_def Let_def)
  note b = parse_channel_range [of "tfa ms"]
  have c: "\<exists>ms'. main_accept ms = Inr ms'
           \<and> sensors ms' = sensors ms
           \<and> syst_packets (syst ms') = syst_packets (syst ms) + 1"
    if "fst (tfa_parse (tfa ms)) \<noteq> 0 \<and> sens_channel (snd (tfa_parse (tfa ms))) = 4"
    using that
    by (cases "tfa_parse (tfa ms)") (simp add: main_accept_def SENSOR_CHANNELS_def Let_def)
  have d: "main_accept ms \<noteq> Inl OutOfBounds" if len: "length (sensors ms) = SENSOR_CHANNELS"
  proof (cases "tfa_parse (tfa ms)")
    case (Pair ok r)
    consider "ok = 0" | "ok \<noteq> 0" "0 < unat (sens_channel r) \<and> unat (sens_channel r) \<le> SENSOR_CHANNELS"
      | "ok \<noteq> 0" "\<not> (0 < unat (sens_channel r) \<and> unat (sens_channel r) \<le> SENSOR_CHANNELS)"
      by blast
    then show ?thesis
    proof cases
      case 1
      with Pair show ?thesis by (simp add: main_accept_invalid)
    next
      case 2
      with main_accept_in_range [OF Pair _ _ _ len] show ?thesis by auto
    next
      case 3
      with main_accept_out_of_range [OF Pair] show ?thesis by auto
    qed
  qed
  from a b c d show ?thesis by blast
qed

theorem channel_four_counted_not_stored_witness:
  "fst (tfa_parse (tfa (ms_example [50, 0xED, 0x30, 0x05, 0x09]))) \<noteq> 0
   \<and> sens_channel (snd (tfa_parse (tfa (ms_example [50, 0xED, 0x30, 0x05, 0x09])))) = 4
   \<and> length (sensors (ms_example [50, 0xED, 0x30, 0x05, 0x09])) = SENSOR_CHANNELS
   \<and> (\<exists>ms'. main_accept (ms_example [50, 0xED, 0x30, 0x05, 0x09]) = Inr ms'
         \<and> sensors ms' = sensors (ms_example [50, 0xED, 0x30, 0x05, 0x09])
         \<and> syst_packets (syst ms') = 42)
   \<and> main_accept (ms_example [50, 0xED, 0x30, 0x05, 0x09]) \<noteq> Inl OutOfBounds"
proof -
  let ?ms = "ms_example [50, 0xED, 0x30, 0x05, 0x09]"
  have h1: "fst (tfa_parse (tfa ?ms)) \<noteq> 0 \<and> sens_channel (snd (tfa_parse (tfa ?ms))) = 4"
    by (simp add: ms_example_def tfa_parse_def read_u16_def TFA_TYPE_def Let_def)
  have h2: "length (sensors ?ms) = SENSOR_CHANNELS"
    by (simp add: ms_example_def SENSOR_CHANNELS_def)
  have h3: "syst_packets (syst ?ms) + 1 = 42"
    by (simp add: ms_example_def)
  from channel_four_counted_not_stored [of ?ms] h1 h2 h3 show ?thesis
    by auto
qed

lemma sync_all_three:
  "length ss = 3 \<Longrightarrow> foldl sync_slot ss [0..<SENSOR_CHANNELS] = map (\<lambda>s. s\<lparr>sens_id := 0xFF\<rparr>) ss"
proof -
  assume "length ss = 3"
  then obtain a b c where "ss = [a, b, c]"
    by (metis (no_types, opaque_lifting) length_0_conv length_Suc_conv numeral_3_eq_3)
  then show ?thesis
    by (simp add: SENSOR_CHANNELS_def sync_slot_def eval_nat_numeral)
qed

lemma cmd_sync_one:
  assumes "1 \<le> c" "c \<le> 3"
  shows "cmd_sync (Some (int c)) ms = ms\<lparr>sensors := (sensors ms)[c - 1 := (sensors ms ! (c - 1))\<lparr>sens_id := 0xFF\<rparr>]\<rparr>"
proof -
  from assms consider "c = 1" | "c = 2" | "c = 3" by linarith
  then show ?thesis
    by cases (simp_all add: cmd_sync_def sync_slot_def SENSOR_CHANNELS_def)
qed

lemma cmd_sync_all:
  "length (sensors ms) = 3 \<Longrightarrow> cmd_sync None ms = ms\<lparr>sensors := map (\<lambda>s. s\<lparr>sens_id := 0xFF\<rparr>) (sensors ms)\<rparr>"
  by (simp add: cmd_sync_def sync_all_three)

lemma main_accept_unlocked:
  assumes "tfa_parse (tfa ms) = (ok, r)" and "ok \<noteq> 0"
    and "0 < unat (sens_channel r)" and "unat (sens_channel r) \<le> SENSOR_CHANNELS"
    and "length (sensors ms) = SENSOR_CHANNELS"
    and "sens_id (sensors ms ! (unat (sens_channel r) - 1)) = 0xFF"
  shows "\<exists>ms'. main_accept ms = Inr ms' \<and> sensors ms' ! (unat (sens_channel r) - 1) = r"
proof -
  from main_accept_in_range [OF assms(1-5)] assms(6)
  obtain ms' where "main_accept ms = Inr ms'"
    and "sensors ms' = (sensors ms)[unat (sens_channel r) - 1 := r]"
    by auto
  moreover have "unat (sens_channel r) - 1 < length (sensors ms)"
    using assms(3-5) by simp
  ultimately show ?thesis by simp
qed

text \<open>
  Claim C7.  A reading with the valid type tag and channel \<open>c\<close> in 1..3 overwrites
  slot \<open>c\<close>, identity included, when the slot's identity is 0xFF or equals the
  reading's; otherwise all slots stay as they are.  The resync command sets the
  identity of the selected slot, or of all three without a channel, to 0xFF and
  changes nothing else, after which the next such reading is stored in the slot.
\<close>

theorem identity_locking:
  assumes parse: "tfa_parse (tfa ms) = (ok, r)" and ok: "ok \<noteq> 0"
    and c: "c = unat (sens_channel r)" and range: "1 \<le> c" "c \<le> 3"
    and len: "length (sensors ms) = 3"
  shows "(\<exists>ms'. main_accept ms = Inr ms'
            \<and> sensors ms' =
                (if sens_id (sensors ms ! (c - 1)) = 0xFF \<or> sens_id (sensors ms ! (c - 1)) = sens_id r
                 then (sensors ms)[c - 1 := r] else sensors ms))
       \<and> cmd_sync (Some (int c)) ms =
            ms\<lparr>sensors := (sensors ms)[c - 1 := (sensors ms ! (c - 1))\<lparr>sens_id := 0xFF\<rparr>]\<rparr>
       \<and> cmd_sync None ms = ms\<lparr>sensors := map (\<lambda>s. s\<lparr>sens_id := 0xFF\<rparr>) (sensors ms)\<rparr>
       \<and> (\<exists>ms'. main_accept (cmd_sync (Some (int c)) ms) = Inr ms' \<and> sensors ms' ! (c - 1) = r)
       \<and> (\<exists>ms'. main_accept (cmd_sync None ms) = Inr ms' \<and> sensors ms' ! (c - 1) = r)"
proof -
  have A: "\<exists>ms'. main_accept ms = Inr ms'
            \<and> sensors ms' =
                (if sens_id (sensors ms ! (c - 1)) = 0xFF \<or> sens_id (sensors ms ! (c - 1)) = sens_id r
                 then (sensors ms)[c - 1 := r] else sensors ms)"
    using main_accept_in_range [OF parse ok] c range len
    by (auto simp: SENSOR_CHANNELS_def)
  note B = cmd_sync_one [OF range, of ms]
  note C = cmd_sync_all [OF len]
  have r1: "0 < unat (sens_channel r)" and r2: "unat (sens_channel r) \<le> SENSOR_CHANNELS"
    using c range by (simp_all add: SENSOR_CHANNELS_def)
  have D: "\<exists>ms'. main_accept (cmd_sync (Some (int c)) ms) = Inr ms' \<and> sensors ms' ! (c - 1) = r"
  proof -
    let ?ms1 = "cmd_sync (Some (int c)) ms"
    have p1: "tfa_parse (tfa ?ms1) = (ok, r)" using parse by (simp add: B)
    have l1: "length (sensors ?ms1) = SENSOR_CHANNELS" using len by (simp add: B SENSOR_CHANNELS_def)
    have "sens_id (sensors ?ms1 ! (c - 1)) = 0xFF" using len range by (simp add: B)
    then have i1: "sens_id (sensors ?ms1 ! (unat (sens_channel r) - 1)) = 0xFF"
      by (simp only: c)
    from main_accept_unlocked [OF p1 ok r1 r2 l1 i1] show ?thesis
      by (simp only: c)
  qed
  have E: "\<exists>ms'. main_accept (cmd_sync None ms) = Inr ms' \<and> sensors ms' ! (c - 1) = r"
  proof -
    let ?ms1 = "cmd_sync None ms"
    have p1: "tfa_parse (tfa ?ms1) = (ok, r)" using parse by (simp add: C)
    have l1: "length (sensors ?ms1) = SENSOR_CHANNELS" using len by (simp add: C SENSOR_CHANNELS_def)
    have "sens_id (sensors ?ms1 ! (c - 1)) = 0xFF" using len range by (simp add: C)
    then have i1: "sens_id (sensors ?ms1 ! (unat (sens_channel r) - 1)) = 0xFF"
      by (simp only: c)
    from main_accept_unlocked [OF p1 ok r1 r2 l1 i1] show ?thesis
      by (simp only: c)
  qed
  from A B C D E show ?thesis by blast
qed

theorem identity_locking_witness:
  "fst (tfa_parse (tfa (ms_example [50, 0xED, 0x10, 0x05, 0x09]))) \<noteq> 0
   \<and> unat (sens_channel (snd (tfa_parse (tfa (ms_example [50, 0xED, 0x10, 0x05, 0x09]))))) = 2
   \<and> sens_id (snd (tfa_parse (tfa (ms_example [50, 0xED, 0x10, 0x05, 0x09])))) = 5
   \<and> sens_id (sensors (ms_example [50, 0xED, 0x10, 0x05, 0x09]) ! 1) = 7
   \<and> length (sensors (ms_example [50, 0xED, 0x10, 0x05, 0x09])) = 3
   \<and> (\<exists>ms'. main_accept (ms_example [50, 0xED, 0x10, 0x05, 0x09]) = Inr ms'
         \<and> sensors ms' = sensors (ms_example [50, 0xED, 0x10, 0x05, 0x09]))
   \<and> sens_id (sensors (cmd_sync (Some 2) (ms_example [50, 0xED, 0x10, 0x05, 0x09])) ! 1) = 0xFF
   \<and> (\<exists>ms'. main_accept (cmd_sync (Some 2) (ms_example [50, 0xED, 0x10, 0x05, 0x09])) = Inr ms'
         \<and> sens_id (sensors ms' ! 1) = 5)"
proof -
  let ?ms = "ms_example [50, 0xED, 0x10, 0x05, 0x09]"
  let ?r = "snd (tfa_parse (tfa ?ms))"
  have p: "tfa_parse (tfa ?ms) = (fst (tfa_parse (tfa ?ms)), ?r)" by simp
  have ok: "fst (tfa_parse (tfa ?ms)) \<noteq> 0"
    by (simp add: ms_example_def tfa_parse_def read_u16_def TFA_TYPE_def Let_def)
  have c: "2 = unat (sens_channel ?r)"
    by (simp add: ms_example_def tfa_parse_def Let_def)
  have id: "sens_id ?r = 5"
    by (simp add: ms_example_def tfa_parse_def Let_def)
  have len: "length (sensors ?ms) = 3" by (simp add: ms_example_def)
  have slot: "sens_id (sensors ?ms ! 1) = 7" by (simp add: ms_example_def slot_empty_def)
  have r1: "(1::nat) \<le> 2" and r2: "(2::nat) \<le> 3" by simp_all
  note T = identity_locking [OF p ok c r1 r2 len]
  from T have A: "\<exists>ms'. main_accept ?ms = Inr ms' \<and> sensors ms' = sensors ?ms"
    using id slot by simp
  from T have B: "sens_id (sensors (cmd_sync (Some 2) ?ms) ! 1) = 0xFF"
    using len by simp
  from T have C: "\<exists>ms'. main_accept (cmd_sync (Some 2) ?ms) = Inr ms' \<and> sens_id (sensors ms' ! 1) = 5"
    using id by auto
  from ok c id slot len A B C show ?thesis by simp
qed

section \<open>Framing one repetition\<close>

subsection \<open>Writing a data bit\<close>

lemma int8_id: "- 128 \<le> x \<Longrightarrow> x < 128 \<Longrightarrow> int8 x = x"
  by (simp add: int8_def)

lemma and7_nat: "0 \<le> b \<Longrightarrow> nat (b AND 0x07) = nat b mod 8" for b :: int
proof -
  assume "0 \<le> b"
  have "b AND 7 = b AND mask 3" by (simp add: mask_eq_exp_minus_1)
  also have "\<dots> = b mod 8" by (simp add: take_bit_eq_mod flip: take_bit_eq_mask)
  finally show ?thesis using \<open>0 \<le> b\<close> by (simp add: nat_mod_distrib)
qed

lemma drop3_nat: "0 \<le> b \<Longrightarrow> nat (drop_bit 3 b) = nat b div 8" for b :: int
  by (simp add: drop_bit_eq_div nat_div_distrib)

lemma byte_write_bit:
  fixes x :: u8
  assumes "j < 8"
  shows "bit (if d then (x AND NOT (push_bit j 1)) OR push_bit j 1 else x AND NOT (push_bit j 1)) n
         = (if n = j then d else bit x n)"
  using assms by (auto simp: bit_simps dest: bit_imp_le_length)

lemma cap_bit_update:
  assumes "length cap = 5" "q < 40" "p < 40"
  shows "cap_bit (cap[q div 8 := (if d then (cap ! (q div 8) AND NOT (push_bit (q mod 8) 1)) OR push_bit (q mod 8) 1
                                  else cap ! (q div 8) AND NOT (push_bit (q mod 8) 1))]) p
         = (if p = q then d else cap_bit cap p)"
proof (cases "p div 8 = q div 8")
  case True
  have "q div 8 < length cap" using assms by simp
  moreover have "p = q \<longleftrightarrow> p mod 8 = q mod 8"
    using True by (metis div_mult_mod_eq)
  ultimately show ?thesis
    using True by (simp add: cap_bit_def byte_write_bit)
next
  case False
  then have "p \<noteq> q" by auto
  with False show ?thesis by (simp add: cap_bit_def)
qed

lemma framer_data_active:
  assumes n: "tfa_buf_bit st = int n" "0 < n" "n \<le> 36"
    and k: "unat (tfa_buf_packet st) = k" "k < 7"
    and wf: "length (tfa_buf st) = 7" "length (tfa_buf st ! k) = 5"
  shows "tfa_buf_bit (framer_data d st) = int (n - 1)"
    and "tfa_buf_packet (framer_data d st) = tfa_buf_packet st"
    and "length (tfa_buf (framer_data d st)) = 7"
    and "length (tfa_buf (framer_data d st) ! k) = 5"
    and "p < 40 \<Longrightarrow> cap_bit (tfa_buf (framer_data d st) ! k) p
           = (if p = n - 1 then d else cap_bit (tfa_buf st ! k) p)"
    and "j \<noteq> k \<Longrightarrow> tfa_buf (framer_data d st) ! j = tfa_buf st ! j"
    and "p_tfa (framer_data d st) = p_tfa st"
proof -
  have b: "int8 (int n - 1) = int n - 1"
    using n by (simp add: int8_id)
  have m: "nat ((int n - 1) AND 0x07) = (n - 1) mod 8"
    using and7_nat [of "int n - 1"] n by (simp add: nat_diff_distrib')
  have dv: "nat (drop_bit 3 (int n - 1)) = (n - 1) div 8"
    using drop3_nat [of "int n - 1"] n by (simp add: nat_diff_distrib')
  have fd: "framer_data d st =
      st\<lparr>tfa_buf_bit := int (n - 1),
         tfa_buf := (tfa_buf st)[k := (tfa_buf st ! k)[(n - 1) div 8 :=
            (if d then (tfa_buf st ! k ! ((n - 1) div 8) AND NOT (push_bit ((n - 1) mod 8) 1)) OR push_bit ((n - 1) mod 8) 1
             else tfa_buf st ! k ! ((n - 1) div 8) AND NOT (push_bit ((n - 1) mod 8) 1))]]\<rparr>"
    using n k by (simp add: framer_data_def TFA_PACKETS_def Let_def b m dv)
  show "tfa_buf_bit (framer_data d st) = int (n - 1)" by (simp add: fd)
  show "tfa_buf_packet (framer_data d st) = tfa_buf_packet st" by (simp add: fd)
  show "length (tfa_buf (framer_data d st)) = 7" using wf by (simp add: fd)
  show "length (tfa_buf (framer_data d st) ! k) = 5" using wf k by (simp add: fd)
  show "cap_bit (tfa_buf (framer_data d st) ! k) p
           = (if p = n - 1 then d else cap_bit (tfa_buf st ! k) p)" if "p < 40"
  proof -
    have "n - 1 < 40" using n by simp
    from cap_bit_update [OF wf(2) this that, of d] show ?thesis
      using wf k by (simp add: fd)
  qed
  show "tfa_buf (framer_data d st) ! j = tfa_buf st ! j" if "j \<noteq> k"
    using that by (simp add: fd)
  show "p_tfa (framer_data d st) = p_tfa st" by (simp add: fd)
qed

subsection \<open>Sequences of pulses\<close>

lemma feed_dispatch:
  "feed F st d =
     (case spec_classify F (unat d) of
        Glitch \<Rightarrow> framer_glitch (st\<lparr>tfa_timer := d\<rparr>)
      | Stop \<Rightarrow> framer_stop (st\<lparr>tfa_timer := d\<rparr>)
      | Gap \<Rightarrow> framer_gap (st\<lparr>tfa_timer := d\<rparr>)
      | Start \<Rightarrow> framer_start (st\<lparr>tfa_timer := d\<rparr>)
      | Data b \<Rightarrow> framer_data b (st\<lparr>tfa_timer := d\<rparr>))"
  by (simp add: feed_def pulse_end_dispatch)

lemma run_pulses_Nil [simp]: "run_pulses F [] st = st"
  by (simp add: run_pulses_def)

lemma run_pulses_Cons [simp]: "run_pulses F (d # ds) st = run_pulses F ds (feed F st d)"
  by (simp add: run_pulses_def)

lemma run_pulses_append [simp]:
  "run_pulses F (xs @ ys) st = run_pulses F ys (run_pulses F xs st)"
  by (simp add: run_pulses_def)

lemma run_data_capture:
  assumes "data_pulses F ds bs"
    and "tfa_buf_bit st = int n" "length ds \<le> n" "n \<le> 36"
    and "unat (tfa_buf_packet st) = k" "k < 7"
    and "length (tfa_buf st) = 7" "length (tfa_buf st ! k) = 5"
  shows "tfa_buf_bit (run_pulses F ds st) = int (n - length ds)
       \<and> tfa_buf_packet (run_pulses F ds st) = tfa_buf_packet st
       \<and> length (tfa_buf (run_pulses F ds st)) = 7
       \<and> length (tfa_buf (run_pulses F ds st) ! k) = 5
       \<and> p_tfa (run_pulses F ds st) = p_tfa st
       \<and> (\<forall>p<40. cap_bit (tfa_buf (run_pulses F ds st) ! k) p
             = (if n - length ds \<le> p \<and> p < n then bs ! (n - 1 - p) else cap_bit (tfa_buf st ! k) p))
       \<and> (\<forall>j. j \<noteq> k \<longrightarrow> tfa_buf (run_pulses F ds st) ! j = tfa_buf st ! j)"
  using assms unfolding data_pulses_def
proof (induction ds bs arbitrary: st n rule: list_all2_induct)
  case Nil
  then show ?case by auto
next
  case (Cons d ds b bs)
  let ?s0 = "st\<lparr>tfa_timer := d\<rparr>"
  let ?s1 = "feed F st d"
  have f: "?s1 = framer_data b ?s0"
    using Cons.hyps(1) by (simp add: feed_dispatch)
  have n0: "0 < n" using Cons.prems(2) by simp
  have pre: "tfa_buf_bit ?s0 = int n" "unat (tfa_buf_packet ?s0) = k"
    "length (tfa_buf ?s0) = 7" "length (tfa_buf ?s0 ! k) = 5"
    using Cons.prems by simp_all
  note A = framer_data_active [where d = b, OF pre(1) n0 Cons.prems(3) pre(2) Cons.prems(5) pre(3,4)]
  have s1: "tfa_buf_bit ?s1 = int (n - 1)" "unat (tfa_buf_packet ?s1) = k"
    "length (tfa_buf ?s1) = 7" "length (tfa_buf ?s1 ! k) = 5"
    "tfa_buf_packet ?s1 = tfa_buf_packet st" "p_tfa ?s1 = p_tfa st"
    using A(1-4,7) pre by (simp_all add: f)
  have s1bit: "cap_bit (tfa_buf ?s1 ! k) p = (if p = n - 1 then b else cap_bit (tfa_buf st ! k) p)"
    if "p < 40" for p
    using A(5) [OF that] by (simp add: f)
  have s1rows: "tfa_buf ?s1 ! j = tfa_buf st ! j" if "j \<noteq> k" for j
    using A(6) [OF that] by (simp add: f)
  have len: "length ds \<le> n - 1" "n - 1 \<le> 36" using Cons.prems(2,3) by simp_all
  note IH = Cons.IH [OF s1(1) len s1(2) Cons.prems(5) s1(3,4)]
  have bits: "cap_bit (tfa_buf (run_pulses F ds ?s1) ! k) p
      = (if n - length (d # ds) \<le> p \<and> p < n then (b # bs) ! (n - 1 - p) else cap_bit (tfa_buf st ! k) p)"
    if p: "p < 40" for p
  proof -
    from IH p have "cap_bit (tfa_buf (run_pulses F ds ?s1) ! k) p
        = (if n - 1 - length ds \<le> p \<and> p < n - 1 then bs ! (n - 1 - 1 - p) else cap_bit (tfa_buf ?s1 ! k) p)"
      by simp
    then show ?thesis
      using s1bit [OF p] n0 Cons.prems(2)
      by (auto simp: nth_Cons' )
  qed
  from IH s1 s1rows bits show ?case
    by simp
qed

lemma framer_start_capture:
  assumes k: "unat (tfa_buf_packet st) = k" "k < 7"
    and wf: "length (tfa_buf st) = 7" "length (tfa_buf st ! k) = 5"
  shows "tfa_buf_bit (framer_start st) = 36"
    and "tfa_buf_packet (framer_start st) = tfa_buf_packet st"
    and "length (tfa_buf (framer_start st)) = 7"
    and "length (tfa_buf (framer_start st) ! k) = 5"
    and "p < 40 \<Longrightarrow> cap_bit (tfa_buf (framer_start st) ! k) p
           = (if 32 \<le> p then False else cap_bit (tfa_buf st ! k) p)"
proof -
  have fs: "framer_start st = st\<lparr>tfa_buf_bit := 36, tfa_buf := (tfa_buf st)[k := (tfa_buf st ! k)[4 := 0]]\<rparr>"
    using k by (simp add: framer_start_def TFA_PACKETS_def TFA_BUF_BYTES_def TFA_BITS_def Let_def)
  show "tfa_buf_bit (framer_start st) = 36" by (simp add: fs)
  show "tfa_buf_packet (framer_start st) = tfa_buf_packet st" by (simp add: fs)
  show "length (tfa_buf (framer_start st)) = 7" using wf by (simp add: fs)
  show "length (tfa_buf (framer_start st) ! k) = 5" using wf k by (simp add: fs)
  show "cap_bit (tfa_buf (framer_start st) ! k) p
           = (if 32 \<le> p then False else cap_bit (tfa_buf st ! k) p)" if "p < 40"
  proof (cases "32 \<le> p")
    case True
    with that have "p div 8 = 4" by simp
    then show ?thesis using True wf k by (simp add: fs cap_bit_def)
  next
    case False
    then have "p div 8 \<noteq> 4" by simp
    then show ?thesis using False wf k by (simp add: fs cap_bit_def)
  qed
qed

lemma framer_stop_complete:
  assumes "tfa_buf_bit st = 0"
  shows "framer_stop st =
           st\<lparr>tfa_buf_bit := -1,
              tfa_buf_packet := (if unat (tfa_buf_packet st) < 8 then tfa_buf_packet st + 1
                                 else tfa_buf_packet st)\<rparr>"
  using assms by (simp add: framer_stop_def TFA_PACKETS_def int8_def Let_def)

subsection \<open>What every pulse leaves alone\<close>

lemma framer_data_frame:
  shows "tfa_buf_packet (framer_data d st) = tfa_buf_packet st"
    and "p_tfa (framer_data d st) = p_tfa st"
    and "TFA_PACKETS \<le> unat (tfa_buf_packet st) \<Longrightarrow> tfa_buf (framer_data d st) = tfa_buf st"
    and "j \<noteq> unat (tfa_buf_packet st) \<Longrightarrow> tfa_buf (framer_data d st) ! j = tfa_buf st ! j"
  by (simp_all add: framer_data_def Let_def)

lemma framer_start_frame:
  shows "tfa_buf_packet (framer_start st) = tfa_buf_packet st"
    and "p_tfa (framer_start st) = p_tfa st"
    and "TFA_PACKETS \<le> unat (tfa_buf_packet st) \<Longrightarrow> tfa_buf (framer_start st) = tfa_buf st"
    and "j \<noteq> unat (tfa_buf_packet st) \<Longrightarrow> tfa_buf (framer_start st) ! j = tfa_buf st ! j"
  by (simp_all add: framer_start_def Let_def)

lemma framer_stop_frame:
  shows "tfa_buf (framer_stop st) = tfa_buf st"
    and "p_tfa (framer_stop st) = p_tfa st"
    and "unat (tfa_buf_packet st) \<le> 8 \<Longrightarrow> unat (tfa_buf_packet (framer_stop st)) \<le> 8"
proof -
  show "tfa_buf (framer_stop st) = tfa_buf st" "p_tfa (framer_stop st) = p_tfa st"
    by (simp_all add: framer_stop_def Let_def)
  show "unat (tfa_buf_packet (framer_stop st)) \<le> 8" if "unat (tfa_buf_packet st) \<le> 8"
  proof (cases "tfa_buf_bit st = 0 \<and> unat (tfa_buf_packet st) < 8")
    case True
    then have "unat (tfa_buf_packet st + 1) = unat (tfa_buf_packet st) + 1"
      by (simp add: unat_word_ariths)
    with True show ?thesis by (simp add: framer_stop_def TFA_PACKETS_def Let_def)
  next
    case False
    with that show ?thesis by (auto simp: framer_stop_def TFA_PACKETS_def Let_def)
  qed
qed

lemma framer_gap_frame:
  shows "tfa_buf (framer_gap st) = tfa_buf st"
    and "tfa_buf_packet (framer_gap st) = 0"
    and "unat (tfa_packets (p_tfa st)) \<le> TFA_PACKETS \<Longrightarrow> unat (tfa_packets (p_tfa (framer_gap st))) \<le> TFA_PACKETS"
  by (simp_all add: framer_gap_def Let_def)

lemma framer_glitch_frame:
  shows "tfa_buf (framer_glitch st) = tfa_buf st"
    and "tfa_buf_packet (framer_glitch st) = tfa_buf_packet st"
    and "p_tfa (framer_glitch st) = p_tfa st"
  by (simp_all add: framer_glitch_def)






subsection \<open>The repetition index\<close>

lemma framer_data_countdown:
  assumes "tfa_buf_bit st = int n" "0 < n" "n \<le> 36"
  shows "tfa_buf_bit (framer_data d st) = int (n - 1)"
proof -
  have "int8 (int n - 1) = int n - 1" using assms by (simp add: int8_id)
  then show ?thesis using assms by (simp add: framer_data_def Let_def)
qed

lemma run_data_countdown:
  assumes "data_pulses F ds bs" and "tfa_buf_bit st = int n" "length ds \<le> n" "n \<le> 36"
  shows "tfa_buf_bit (run_pulses F ds st) = int (n - length ds)
       \<and> tfa_buf_packet (run_pulses F ds st) = tfa_buf_packet st"
  using assms unfolding data_pulses_def
proof (induction ds bs arbitrary: st n rule: list_all2_induct)
  case Nil
  then show ?case by simp
next
  case (Cons d ds b bs)
  have f: "feed F st d = framer_data b (st\<lparr>tfa_timer := d\<rparr>)"
    using Cons.hyps(1) by (simp add: feed_dispatch)
  have n0: "0 < n" using Cons.prems(2) by simp
  have "tfa_buf_bit (st\<lparr>tfa_timer := d\<rparr>) = int n" using Cons.prems(1) by simp
  from framer_data_countdown [OF this n0 Cons.prems(3)]
  have b1: "tfa_buf_bit (feed F st d) = int (n - 1)" by (simp add: f)
  have p1: "tfa_buf_packet (feed F st d) = tfa_buf_packet st"
    by (simp add: f framer_data_frame)
  have "length ds \<le> n - 1" "n - 1 \<le> 36" using Cons.prems(2,3) by simp_all
  from Cons.IH [OF b1 this] p1 show ?case by simp
qed

lemma repetition_index:
  assumes "spec_classify F (unat d0) = Start" and "data_pulses F ds bs" and "length ds = 36"
    and "spec_classify F (unat d1) = Stop"
  shows "tfa_buf_packet (run_pulses F (d0 # ds @ [d1]) st)
         = (if unat (tfa_buf_packet st) < 8 then tfa_buf_packet st + 1 else tfa_buf_packet st)"
proof -
  let ?s1 = "feed F st d0"
  let ?s2 = "run_pulses F ds ?s1"
  have f1: "?s1 = framer_start (st\<lparr>tfa_timer := d0\<rparr>)" using assms(1) by (simp add: feed_dispatch)
  have s1: "tfa_buf_bit ?s1 = int 36" "tfa_buf_packet ?s1 = tfa_buf_packet st"
    by (simp_all add: f1 framer_start_def TFA_BITS_def Let_def)
  have "length ds \<le> 36" "(36::nat) \<le> 36" using assms(3) by simp_all
  from run_data_countdown [OF assms(2) s1(1) this] assms(3) s1(2)
  have s2: "tfa_buf_bit ?s2 = 0" "tfa_buf_packet ?s2 = tfa_buf_packet st" by simp_all
  have "run_pulses F (d0 # ds @ [d1]) st = framer_stop (?s2\<lparr>tfa_timer := d1\<rparr>)"
    using assms(4) by (simp add: feed_dispatch)
  then show ?thesis using s2 by (simp add: framer_stop_complete)
qed

lemma repetitions_index:
  assumes "spec_classify F (unat d0) = Start" and "data_pulses F ds bs" and "length ds = 36"
    and "spec_classify F (unat d1) = Stop"
  shows "unat (tfa_buf_packet st) + m \<le> 8 \<Longrightarrow>
         unat (tfa_buf_packet (run_pulses F (concat (replicate m (d0 # ds @ [d1]))) st))
         = unat (tfa_buf_packet st) + m"
proof (induction m arbitrary: st)
  case 0
  then show ?case by simp
next
  case (Suc m)
  let ?s1 = "run_pulses F (d0 # ds @ [d1]) st"
  from Suc.prems have lt: "unat (tfa_buf_packet st) < 8" by simp
  then have "tfa_buf_packet ?s1 = tfa_buf_packet st + 1"
    using repetition_index [OF assms, of st] by simp
  moreover have "unat (tfa_buf_packet st + 1) = unat (tfa_buf_packet st) + 1"
    using lt by (simp add: unat_word_ariths)
  ultimately have u: "unat (tfa_buf_packet ?s1) = unat (tfa_buf_packet st) + 1" by simp
  with Suc.prems have "unat (tfa_buf_packet ?s1) + m \<le> 8" by simp
  from Suc.IH [OF this] u
  have "unat (tfa_buf_packet (run_pulses F (concat (replicate m (d0 # ds @ [d1]))) ?s1))
        = unat (tfa_buf_packet st) + Suc m" by simp
  then show ?case by (simp del: run_pulses_Cons run_pulses_append add: run_pulses_append [symmetric])
qed

lemma data_durations_ok: "data_pulses 8000000 (data_durations bs) bs"
  by (induction bs) (simp_all add: data_pulses_def data_durations_def spec_classify_8MHz)




subsection \<open>The end of a burst\<close>

text \<open>
  The repetition index counts the stop pulses that arrive while the bit countdown is
  0.  The countdown is 0 after the 36th data bit of a repetition, but also at reset
  (the static is initialised to 0, not to the idle value -1), and the gap branch
  leaves it as it is.  A burst made of fewer than three complete repetitions and a
  gap is discarded from every state with index 0; a pulse of stop length that arrives
  at reset, or after a gap that cut a repetition short of its stop pulse, is counted
  as a repetition although none was received.
\<close>

lemma gap_keeps_countdown: "tfa_buf_bit (framer_gap st) = tfa_buf_bit st"
  by (simp add: framer_gap_def Let_def)

lemma stop_at_reset_counted:
  assumes "spec_classify F (unat d) = Stop"
  shows "tfa_buf_packet (feed F (isr_init t) d) = 1"
    and "tfa_buf_bit (feed F (isr_init t) d) = -1"
  using assms by (simp_all add: feed_dispatch framer_stop_complete isr_init_def)

lemma stop_after_gap_counted:
  assumes "tfa_buf_bit st = 0" and "spec_classify F (unat dg) = Gap" and "spec_classify F (unat d) = Stop"
  shows "tfa_buf_packet (run_pulses F [dg, d] st) = 1"
  using assms by (simp add: feed_dispatch framer_stop_complete framer_gap_frame gap_keeps_countdown)

lemma run_pulses_no_gap:
  "\<forall>d \<in> set ds. spec_classify F (unat d) \<noteq> Gap \<Longrightarrow> p_tfa (run_pulses F ds st) = p_tfa st"
proof (induction ds arbitrary: st)
  case Nil
  then show ?case by simp
next
  case (Cons d ds)
  from Cons.prems have "spec_classify F (unat d) \<noteq> Gap" by simp
  then have "p_tfa (feed F st d) = p_tfa st"
    by (cases "spec_classify F (unat d)")
       (simp_all add: feed_dispatch framer_glitch_frame framer_stop_frame framer_start_frame
          framer_data_frame)
  with Cons show ?case by simp
qed

lemma short_burst_discarded:
  assumes "spec_classify F (unat d0) = Start" and "data_pulses F ds bs" and "length ds = 36"
    and "spec_classify F (unat d1) = Stop" and "spec_classify F (unat dg) = Gap"
    and "tfa_buf_packet st = 0" and "m < 3"
  shows "p_tfa (run_pulses F (concat (replicate m (d0 # ds @ [d1])) @ [dg]) st) = p_tfa st"
    and "tfa_buf_packet (run_pulses F (concat (replicate m (d0 # ds @ [d1])) @ [dg]) st) = 0"
proof -
  let ?rs = "concat (replicate m (d0 # ds @ [d1]))"
  let ?s = "run_pulses F ?rs st"
  have "unat (tfa_buf_packet st) + m \<le> 8" using assms(6,7) by simp
  from repetitions_index [OF assms(1-4) this] assms(6)
  have idx: "unat (tfa_buf_packet ?s) = m" by simp
  have "\<forall>d \<in> set ds. spec_classify F (unat d) \<noteq> Gap"
    using assms(2) unfolding data_pulses_def by (auto simp: list_all2_conv_all_nth in_set_conv_nth)
  then have "\<forall>d \<in> set ?rs. spec_classify F (unat d) \<noteq> Gap"
    using assms(1,4) by auto
  then have p: "p_tfa ?s = p_tfa st" by (rule run_pulses_no_gap)
  have g: "feed F ?s dg = framer_gap (?s\<lparr>tfa_timer := dg\<rparr>)"
    using assms(5) by (simp add: feed_dispatch)
  show "p_tfa (run_pulses F (?rs @ [dg]) st) = p_tfa st"
    using idx assms(7) p by (simp add: g framer_gap_def Let_def)
  show "tfa_buf_packet (run_pulses F (?rs @ [dg]) st) = 0"
    by (simp add: g framer_gap_frame)
qed

lemma stray_burst_run:
  "p_tfa (run_pulses 8000000 stray_burst (isr_init tfa_blank))
   = tfa_blank\<lparr>tfa_data := [[0, 0, 0, 0, 0], [45, 248, 159, 9, 9], [45, 248, 159, 9, 9],
                              [0, 0, 0, 0, 0], [0, 0, 0, 0, 0], [0, 0, 0, 0, 0], [0, 0, 0, 0, 0]],
                 tfa_packets := 3, tfa_flags := TFA_NEW_PACKETS\<rparr>"
  by code_simp

lemma clean_burst_run:
  "p_tfa (run_pulses 8000000 clean_burst (isr_init tfa_blank)) = tfa_blank"
  by code_simp

lemma resumed_burst_run:
  "p_tfa (run_pulses 8000000 resumed_burst (isr_init tfa_blank))
   = tfa_blank\<lparr>tfa_data := [[45, 248, 159, 9, 9], [45, 248, 159, 9, 9], [45, 248, 159, 9, 9],
                              [0, 0, 0, 0, 0], [0, 0, 0, 0, 0], [0, 0, 0, 0, 0], [0, 0, 0, 0, 0]],
                 tfa_packets := 3, tfa_flags := TFA_NEW_PACKETS\<rparr>"
  by code_simp

text \<open>
  Claim C6.  On an inter-burst gap the framer publishes the capture set exactly when
  the repetition count is between 3 and 7, a burst that ended with fewer than 3
  complete repetitions is discarded with no flag set and no reading produced, and the
  index is reset to 0 in both cases.  The code does not discard every such burst.
  From reset, a low pulse of 10 ticks followed by a rising edge sets the index to 1.
  The burst \<open>stray_burst\<close> (that pulse, two complete repetitions, a gap) is published
  with count 3 and the new-burst flag, and the reconciler returns 1 with the capture
  that was never written; without the leading pulse (\<open>clean_burst\<close>) nothing is
  published and the reconciler returns 0.  After \<open>resumed_burst\<close> the count 3 is
  published as well, the reconciler returns the example reading, and the main loop
  counts and reports it.
\<close>

theorem stray_stop_pulse_counted_as_repetition:
  "tfa_buf_packet (isr_run 8000000 (replicate 10 0 @ [4]) (isr_init tfa_blank)) = 1
   \<and> tfa_flags (p_tfa (run_pulses 8000000 stray_burst (isr_init tfa_blank))) = TFA_NEW_PACKETS
   \<and> tfa_packets (p_tfa (run_pulses 8000000 stray_burst (isr_init tfa_blank))) = 3
   \<and> tfa_proc_packets (p_tfa (run_pulses 8000000 stray_burst (isr_init tfa_blank)))
       = Some (1, tfa_blank\<lparr>tfa_data := [[0, 0, 0, 0, 0], [45, 248, 159, 9, 9], [45, 248, 159, 9, 9],
                              [0, 0, 0, 0, 0], [0, 0, 0, 0, 0], [0, 0, 0, 0, 0], [0, 0, 0, 0, 0]],
                 tfa_packets := 3, tfa_packet := [0, 0, 0, 0, 0], tfa_flags := TFA_NEW_PACKET\<rparr>)
   \<and> tfa_flags (p_tfa (run_pulses 8000000 clean_burst (isr_init tfa_blank))) = 0
   \<and> tfa_proc_packets (p_tfa (run_pulses 8000000 clean_burst (isr_init tfa_blank))) = Some (0, tfa_blank)
   \<and> tfa_flags (p_tfa (run_pulses 8000000 resumed_burst (isr_init tfa_blank))) = TFA_NEW_PACKETS
   \<and> tfa_packets (p_tfa (run_pulses 8000000 resumed_burst (isr_init tfa_blank))) = 3
   \<and> map_option (\<lambda>(r, t). (r, tfa_packet t, tfa_flags t))
        (tfa_proc_packets (p_tfa (run_pulses 8000000 resumed_burst (isr_init tfa_blank))))
       = Some (1, encode_bytes reading_example, TFA_NEW_PACKET)
   \<and> map_sum id (\<lambda>ms. (syst_packets (syst ms), length (tx ms)))
        (main_process ((ms_example [])\<lparr>tfa := p_tfa (run_pulses 8000000 resumed_burst (isr_init tfa_blank))\<rparr>))
       = Inr (42, 1)"
  unfolding stray_burst_run clean_burst_run resumed_burst_run
  by code_simp

section \<open>Round trip through framer and parser\<close>

lemma u16_mask12: "(0x0FFF :: u16) = mask 12" by (simp add: mask_eq_exp_minus_1)

lemma parse_encode_id:
  assumes "rd_identity r < 16"
  shows "(encode_bytes r ! 3) AND 0x0F = rd_identity r"
proof -
  have m: "(0x0F :: u8) = mask 4" by (simp add: mask_eq_exp_minus_1)
  have "rd_identity r < 2 ^ 4" using assms by simp
  then have id: "rd_identity r AND mask 4 = rd_identity r"
    by (rule less_mask_eq)
  have "(rd_identity r OR push_bit 4 (rd_type r AND mask 4)) AND mask 4 = rd_identity r AND mask 4"
    by (rule bit_eqI) (auto simp: bit_simps)
  with id show ?thesis by (simp add: encode_bytes_def Let_def m)
qed

lemma parse_encode_type:
  assumes "rd_identity r < 16"
  shows "ucast (drop_bit 4 (read_u16 (encode_bytes r) 3)) = rd_type r"
proof -
  have m: "(0x0F :: u8) = mask 4" by (simp add: mask_eq_exp_minus_1)
  have "rd_identity r < 2 ^ 4" using assms by simp
  then have id: "rd_identity r AND mask 4 = rd_identity r"
    by (rule less_mask_eq)
  have "(ucast (drop_bit 4 ((ucast ((rd_identity r AND mask 4) OR push_bit 4 (rd_type r AND mask 4)) :: u16)
            OR push_bit 8 (ucast (drop_bit 4 (rd_type r))))) :: u8) = rd_type r"
  proof (rule bit_eqI)
    fix n
    assume "possible_bit TYPE(u8) n"
    then have n: "n < 8" by simp
    consider "n < 4" | "4 \<le> n" by linarith
    then show "bit (ucast (drop_bit 4 ((ucast ((rd_identity r AND mask 4) OR push_bit 4 (rd_type r AND mask 4)) :: u16)
            OR push_bit 8 (ucast (drop_bit 4 (rd_type r))))) :: u8) n = bit (rd_type r) n"
      using n by cases (auto simp: bit_simps dest: bit_imp_le_length)
  qed
  then show ?thesis
    by (simp add: encode_bytes_def read_u16_def Let_def m id)
qed

lemma bit_flag_u8:
  "k < 8 \<Longrightarrow> bit (if s then push_bit k 1 else 0 :: u8) n = (s \<and> n = k)"
  by (auto simp: bit_simps)

lemma channel_field:
  assumes "1 \<le> rd_channel r" "rd_channel r \<le> 4"
  shows "rd_channel r - 1 < 2 ^ 2" and "1 + (rd_channel r - 1) = rd_channel r"
proof -
  have "unat (rd_channel r - 1) = unat (rd_channel r) - 1"
    using assms(1) by (simp add: unat_sub)
  moreover have "unat (rd_channel r) \<le> 4" using assms(2) by (simp add: word_le_nat_alt)
  ultimately have "unat (rd_channel r - 1) < 4" using assms(1) by (simp add: word_le_nat_alt)
  then show "rd_channel r - 1 < 2 ^ 2" by (simp add: word_less_nat_alt)
  show "1 + (rd_channel r - 1) = rd_channel r" by simp
qed

text \<open>Byte 2 of the encoding: temperature bits 8 to 11, channel, sync, battery.\<close>

lemma byte2_channel:
  fixes w :: u16 and c S B :: u8
  assumes "c < 2 ^ 2" and S: "\<And>n. bit S n = (s \<and> n = 6)" and B: "\<And>n. bit B n = (b \<and> n = 7)"
  shows "drop_bit 4 (ucast (drop_bit 8 (w AND mask 12)) OR push_bit 4 c OR S OR B) AND mask 2 = c"
proof -
  have c: "c AND mask 2 = c" using assms(1) by (rule less_mask_eq)
  have "drop_bit 4 (ucast (drop_bit 8 (w AND mask 12)) OR push_bit 4 (c AND mask 2) OR S OR B) AND mask 2
        = c AND mask 2"
    by (rule bit_eqI) (auto simp: bit_simps S B dest: bit_imp_le_length)
  then show ?thesis by (simp add: c)
qed

lemma byte2_flags:
  fixes w :: u16 and c S B S' B' :: u8
  assumes "c < 2 ^ 2" and S: "\<And>n. bit S n = (s \<and> n = 6)" and B: "\<And>n. bit B n = (b \<and> n = 7)"
    and S': "\<And>n. bit S' n = (n = 6)" and B': "\<And>n. bit B' n = (n = 7)"
  shows "(ucast (drop_bit 8 (w AND mask 12)) OR push_bit 4 c OR S OR B) AND (B' OR S') = B OR S"
proof -
  have c: "c AND mask 2 = c" using assms(1) by (rule less_mask_eq)
  have "(ucast (drop_bit 8 (w AND mask 12)) OR push_bit 4 (c AND mask 2) OR S OR B) AND (B' OR S') = B OR S"
    by (rule bit_eqI) (auto simp: bit_simps S B S' B' dest: bit_imp_le_length)
  then show ?thesis by (simp add: c)
qed

lemma bit_pow_u8: "k < 8 \<Longrightarrow> bit (push_bit k 1 :: u8) n = (n = k)"
  by (auto simp: bit_simps)

lemma byte12_temp':
  fixes w :: u16 and c S B :: u8
  assumes S: "\<And>n. bit S n = (s \<and> n = 6)" and B: "\<And>n. bit B n = (b \<and> n = 7)"
  shows "(ucast (ucast (w AND mask 12) :: u8)
            OR push_bit 8 (ucast (ucast (drop_bit 8 (w AND mask 12)) OR push_bit 4 c OR S OR B :: u8)))
          AND mask 12
         = w AND mask 12"
  by (rule bit_eqI) (auto simp: bit_simps S B dest: bit_imp_le_length)

lemma tenths_raw:
  assumes "- 2048 \<le> t" "t < 2048"
  shows "(let raw = uint ((word_of_int t :: u16) AND mask 12) in if raw < 2048 then raw else raw - 4096) = t"
proof -
  have "uint ((word_of_int t :: u16) AND mask 12) = take_bit 12 t"
    by (simp add: unsigned_take_bit_eq uint_word_of_int_eq flip: take_bit_eq_mask)
  also have "\<dots> = t mod 4096" by (simp add: take_bit_eq_mod)
  finally have raw: "uint ((word_of_int t :: u16) AND mask 12) = t mod 4096" .
  show ?thesis
  proof (cases "0 \<le> t")
    case True
    with assms have "t mod 4096 = t" by simp
    with raw assms show ?thesis by (simp add: Let_def)
  next
    case False
    with assms have "t mod 4096 = t + 4096"
      by (smt (verit) mod_add_self2 mod_pos_pos_trivial)
    with raw assms show ?thesis by (simp add: Let_def)
  qed
qed

lemma parse_encode:
  assumes v: "valid_reading r"
  shows "tfa_parse (t\<lparr>tfa_packet := encode_bytes r\<rparr>)
         = (if rd_type r = TFA_TYPE then 1 else 0, sensor_of r)"
proof -
  define w where "w = (word_of_int (rd_tenths r) :: u16)"
  define S where "S = (if rd_sync r then push_bit 6 1 else 0 :: u8)"
  define B where "B = (if rd_low_batt r then push_bit 7 1 else 0 :: u8)"
  define c where "c = rd_channel r - 1"
  have S: "bit S n = (rd_sync r \<and> n = 6)" for n
    unfolding S_def by (rule bit_flag_u8) simp
  have B: "bit B n = (rd_low_batt r \<and> n = 7)" for n
    unfolding B_def by (rule bit_flag_u8) simp
  have S': "bit TFA_SYNC n = (n = 6)" for n
    unfolding TFA_SYNC_def by (rule bit_pow_u8) simp
  have B': "bit TFA_LOW_BATT n = (n = 7)" for n
    unfolding TFA_LOW_BATT_def by (rule bit_pow_u8) simp
  from v have ch: "1 \<le> rd_channel r" "rd_channel r \<le> 4" and idr: "rd_identity r < 16"
    and tr: "- 2048 \<le> rd_tenths r" "rd_tenths r < 2048"
    by (simp_all add: valid_reading_def)
  have c4: "c < 2 ^ 2" and c1: "1 + c = rd_channel r"
    unfolding c_def using channel_field [OF ch] by simp_all
  have enc: "encode_bytes r =
      [rd_rh r, ucast (w AND mask 12),
       ucast (drop_bit 8 (w AND mask 12)) OR push_bit 4 c OR S OR B,
       rd_identity r OR push_bit 4 (rd_type r AND 0x0F),
       drop_bit 4 (rd_type r)]"
    by (simp add: encode_bytes_def Let_def w_def S_def B_def c_def u16_mask12)
  have b2: "encode_bytes r ! 2 = ucast (drop_bit 8 (w AND mask 12)) OR push_bit 4 c OR S OR B"
    by (simp add: enc)
  have m3: "(0x03 :: u8) = mask 2" by (simp add: mask_eq_exp_minus_1)
  have chan: "1 + (drop_bit 4 (encode_bytes r ! 2) AND 0x03) = rd_channel r"
    unfolding b2 m3 using byte2_channel [OF c4 S B, of w] c1 by simp
  have flags: "encode_bytes r ! 2 AND (TFA_LOW_BATT OR TFA_SYNC) = B OR S"
    unfolding b2 by (rule byte2_flags [OF c4 S B S' B'])
  have SB: "S = (if rd_sync r then TFA_SYNC else 0)" "B = (if rd_low_batt r then TFA_LOW_BATT else 0)"
    by (simp_all add: S_def B_def TFA_SYNC_def TFA_LOW_BATT_def)
  have rd: "read_u16 (encode_bytes r) 1 AND 0x0FFF = w AND mask 12"
    unfolding u16_mask12 using byte12_temp' [OF S B, of w c] by (simp add: read_u16_def enc)
  have temp: "sint (parse_temp (encode_bytes r)) = rd_tenths r"
    using tenths_raw [OF tr] rd by (simp add: sint_parse_temp w_def)
  have idp: "encode_bytes r ! 3 AND 0x0F = rd_identity r"
    by (rule parse_encode_id [OF idr])
  have tyf: "ucast (drop_bit 4 (read_u16 (encode_bytes r) 3)) = rd_type r"
    by (rule parse_encode_type [OF idr])
  have rh: "encode_bytes r ! 0 = rd_rh r" by (simp add: enc)
  have tempr: "real_of_int (sint (parse_temp (encode_bytes r))) = real_of_int (rd_tenths r)"
    by (simp only: temp)
  from tempr show ?thesis
    by (simp add: tfa_parse_def Let_def sensor_of_def chan flags idp tyf rh SB [symmetric] or.assoc)
qed

lemma capture_eqI:
  assumes "length a = 5" "length b = 5" and "\<And>p. p < 40 \<Longrightarrow> cap_bit a p = cap_bit b p"
  shows "a = b"
proof (rule nth_equalityI)
  show "length a = length b" using assms by simp
next
  fix j assume "j < length a"
  then have j: "j < 5" using assms by simp
  show "a ! j = b ! j"
  proof (rule bit_eqI)
    fix n assume "possible_bit TYPE(u8) n"
    then have n: "n < 8" by simp
    with j have "8 * j + n < 40" by simp
    from assms(3) [OF this] n show "bit (a ! j) n = bit (b ! j) n"
      by (simp add: cap_bit_def)
  qed
qed

lemma length_encode_bytes: "length (encode_bytes r) = 5"
  by (simp add: encode_bytes_def Let_def)

lemma encode_bytes_top: "36 \<le> p \<Longrightarrow> p < 40 \<Longrightarrow> \<not> cap_bit (encode_bytes r) p"
proof -
  assume p: "36 \<le> p" "p < 40"
  then have "p div 8 = 4" "4 \<le> p mod 8" by presburger+
  then show ?thesis
    by (auto simp: cap_bit_def encode_bytes_def Let_def bit_simps dest: bit_imp_le_length)
qed

lemma encode_bits_nth: "i < 36 \<Longrightarrow> encode_bits r ! i = cap_bit (encode_bytes r) (35 - i)"
  by (simp add: encode_bits_def)

lemma length_encode_bits: "length (encode_bits r) = 36"
  by (simp add: encode_bits_def)

text \<open>
  Claim C4.  Let a start pulse, 36 pulses classified as data bits \<open>bs\<close> and a stop
  pulse arrive while the repetition index \<open>k\<close> is below the capacity.  Then the
  \<open>i\<close>-th received bit is bit \<open>(35 - i) mod 8\<close> of byte \<open>(35 - i) div 8\<close> of capture
  \<open>k\<close>, and the index has advanced.  If \<open>bs\<close> are the bits of a reading encoded by
  the byte layout of the specification, the capture is that encoding and \<^verbatim>\<open>tfa_parse\<close>
  applied to it returns the reading, valid exactly when the type tag is \<^verbatim>\<open>TFA_TYPE\<close>.
\<close>

theorem framed_repetition_round_trip:
  assumes start: "spec_classify F (unat d0) = Start"
    and data: "data_pulses F ds bs" and len: "length ds = 36"
    and stop: "spec_classify F (unat d1) = Stop"
    and k: "unat (tfa_buf_packet st) = k" "k < TFA_PACKETS"
    and wf: "length (tfa_buf st) = TFA_PACKETS" "length (tfa_buf st ! k) = TFA_BUF_BYTES"
  shows "(\<forall>i<36. bit (tfa_buf (run_pulses F (d0 # ds @ [d1]) st) ! k ! ((35 - i) div 8)) ((35 - i) mod 8)
             = bs ! i)
       \<and> tfa_buf_packet (run_pulses F (d0 # ds @ [d1]) st) = tfa_buf_packet st + 1
       \<and> (\<forall>r. valid_reading r \<and> bs = encode_bits r \<longrightarrow>
             tfa_buf (run_pulses F (d0 # ds @ [d1]) st) ! k = encode_bytes r
           \<and> tfa_parse (t\<lparr>tfa_packet := tfa_buf (run_pulses F (d0 # ds @ [d1]) st) ! k\<rparr>)
               = (if rd_type r = TFA_TYPE then 1 else 0, sensor_of r))"
proof -
  let ?s0 = "st\<lparr>tfa_timer := d0\<rparr>"
  let ?s1 = "feed F st d0"
  let ?s2 = "run_pulses F ds ?s1"
  let ?s3 = "run_pulses F (d0 # ds @ [d1]) st"
  have k7: "k < 7" and wf7: "length (tfa_buf st) = 7" "length (tfa_buf st ! k) = 5"
    using k wf by (simp_all add: TFA_PACKETS_def TFA_BUF_BYTES_def)
  have f1: "?s1 = framer_start ?s0" using start by (simp add: feed_dispatch)
  have pre0: "unat (tfa_buf_packet ?s0) = k" "length (tfa_buf ?s0) = 7" "length (tfa_buf ?s0 ! k) = 5"
    using k wf7 by simp_all
  note A = framer_start_capture [OF pre0(1) k7 pre0(2,3)]
  have s1: "tfa_buf_bit ?s1 = int 36" "unat (tfa_buf_packet ?s1) = k" "tfa_buf_packet ?s1 = tfa_buf_packet st"
    "length (tfa_buf ?s1) = 7" "length (tfa_buf ?s1 ! k) = 5"
    using A(1-4) k by (simp_all add: f1)
  have s1bit: "\<not> cap_bit (tfa_buf ?s1 ! k) p" if "36 \<le> p" "p < 40" for p
    using A(5) [OF that(2)] that(1) by (simp add: f1)
  have l36: "length ds \<le> 36" "(36::nat) \<le> 36" using len by simp_all
  note R = run_data_capture [OF data s1(1) l36 s1(2) k7 s1(4,5)]
  have s2: "tfa_buf_bit ?s2 = 0" "tfa_buf_packet ?s2 = tfa_buf_packet st"
    "length (tfa_buf ?s2 ! k) = 5"
    using R s1(3) len by simp_all
  have s2bit: "cap_bit (tfa_buf ?s2 ! k) p = (if p < 36 then bs ! (35 - p) else False)" if "p < 40" for p
    using R that len s1bit [of p] by auto
  have f3: "?s3 = framer_stop (?s2\<lparr>tfa_timer := d1\<rparr>)"
    using stop by (simp add: feed_dispatch)
  have s3: "tfa_buf ?s3 = tfa_buf ?s2"
    "tfa_buf_packet ?s3 = tfa_buf_packet st + 1"
    unfolding f3 using s2(1,2) k k7 by (simp_all add: framer_stop_complete)
  have B: "bit (tfa_buf ?s3 ! k ! ((35 - i) div 8)) ((35 - i) mod 8) = bs ! i" if "i < 36" for i
  proof -
    from that have a: "35 - i < 40" "35 - i < 36" "35 - (35 - i) = i" by arith+
    from s2bit [OF a(1)] a(2,3) s3(1) show ?thesis by (simp add: cap_bit_def)
  qed
  have C: "tfa_buf ?s3 ! k = encode_bytes r
      \<and> tfa_parse (t\<lparr>tfa_packet := tfa_buf ?s3 ! k\<rparr>) = (if rd_type r = TFA_TYPE then 1 else 0, sensor_of r)"
    if v: "valid_reading r" and e: "bs = encode_bits r" for r
  proof -
    have "tfa_buf ?s2 ! k = encode_bytes r"
    proof (rule capture_eqI [OF s2(3) length_encode_bytes])
      fix p :: nat assume p: "p < 40"
      show "cap_bit (tfa_buf ?s2 ! k) p = cap_bit (encode_bytes r) p"
      proof (cases "p < 36")
        case True
        then show ?thesis using s2bit [OF p] by (simp add: e encode_bits_nth)
      next
        case False
        then show ?thesis using s2bit [OF p] encode_bytes_top [of p r] p by simp
      qed
    qed
    with s3(1) show ?thesis by (simp add: parse_encode [OF v])
  qed
  from B s3(2) C show ?thesis by blast
qed

theorem framed_repetition_round_trip_witness:
  "spec_classify 8000000 (unat (150 :: u8)) = Start
   \<and> data_pulses 8000000 (data_durations (encode_bits reading_example)) (encode_bits reading_example)
   \<and> length (data_durations (encode_bits reading_example)) = 36
   \<and> spec_classify 8000000 (unat (10 :: u8)) = Stop
   \<and> unat (tfa_buf_packet (isr_init tfa_blank)) = 0
   \<and> valid_reading reading_example
   \<and> tfa_buf (run_pulses 8000000 (150 # data_durations (encode_bits reading_example) @ [10])
                 (isr_init tfa_blank)) ! 0 = [45, 248, 159, 9, 9]
   \<and> tfa_parse (tfa_blank\<lparr>tfa_packet :=
         tfa_buf (run_pulses 8000000 (150 # data_durations (encode_bits reading_example) @ [10])
                    (isr_init tfa_blank)) ! 0\<rparr>)
       = (1, sensor_of reading_example)"
proof -
  have h1: "spec_classify 8000000 (unat (150 :: u8)) = Start" by (simp add: spec_classify_8MHz)
  note h2 = data_durations_ok [of "encode_bits reading_example"]
  have h3: "length (data_durations (encode_bits reading_example)) = 36"
    by (simp add: data_durations_def length_encode_bits)
  have h4: "spec_classify 8000000 (unat (10 :: u8)) = Stop" by (simp add: spec_classify_8MHz)
  have h5: "unat (tfa_buf_packet (isr_init tfa_blank)) = 0" by (simp add: isr_init_def)
  have h6: "0 < TFA_PACKETS" by (simp add: TFA_PACKETS_def)
  have h7: "length (tfa_buf (isr_init tfa_blank)) = TFA_PACKETS" by (simp add: isr_init_def)
  have h8: "length (tfa_buf (isr_init tfa_blank) ! 0) = TFA_BUF_BYTES"
    by (simp add: isr_init_def TFA_PACKETS_def)
  have v: "valid_reading reading_example" by (simp add: valid_reading_def reading_example_def)
  have e: "encode_bytes reading_example = [45, 248, 159, 9, 9]"
    by (simp add: encode_bytes_def reading_example_def Let_def)
  have ty: "rd_type reading_example = TFA_TYPE" by (simp add: reading_example_def TFA_TYPE_def)
  note T = framed_repetition_round_trip [OF h1 h2 h3 h4 h5 h6 h7 h8, of tfa_blank]
  from T v have
    "tfa_buf (run_pulses 8000000 (150 # data_durations (encode_bits reading_example) @ [10])
                 (isr_init tfa_blank)) ! 0 = encode_bytes reading_example
     \<and> tfa_parse (tfa_blank\<lparr>tfa_packet :=
           tfa_buf (run_pulses 8000000 (150 # data_durations (encode_bits reading_example) @ [10])
                      (isr_init tfa_blank)) ! 0\<rparr>)
         = (if rd_type reading_example = TFA_TYPE then 1 else 0, sensor_of reading_example)"
    by blast
  with e ty h1 h2 h3 h4 h5 v show ?thesis by auto
qed

section \<open>Packet reconciler\<close>

subsection \<open>The inner loop\<close>

lemma same_refl [simp]: "same buf m m" by (simp add: same_def memcmp_eq_def)
lemma same_sym: "same buf m n \<Longrightarrow> same buf n m" by (simp add: same_def memcmp_eq_def)
lemma same_trans: "same buf m n \<Longrightarrow> same buf n k \<Longrightarrow> same buf m k" by (simp add: same_def memcmp_eq_def)
lemma maj_same: "maj buf v m \<Longrightarrow> same buf m n \<Longrightarrow> maj buf v n" by (simp add: same_def maj_def memcmp_eq_def)
lemma maj_maj: "maj buf v m \<Longrightarrow> maj buf v n \<Longrightarrow> same buf m n" by (simp add: same_def maj_def memcmp_eq_def)

lemma vote_inner_step:
  assumes "m < length (counts s)" "n < length (counts s)" "- 1 \<le> counts s ! m" "counts s ! m < 127"
  shows "vote_inner buf m s n =
      (if counts s ! n = 0 \<and> same buf m n then
         s\<lparr>counts := (counts s)[m := (if n = m then - 1 else counts s ! m + 1)],
           maxv0 := max (maxv0 s) (counts s ! m + 1),
           maxv1 := (if counts s ! m + 1 > maxv0 s then maxv0 s else maxv1 s),
           maxid := (if counts s ! m + 1 > maxv0 s then m else maxid s)\<rparr>
       else s)"
proof -
  have w: "int8 (counts s ! m + 1) = counts s ! m + 1"
    using assms(3,4) by (simp add: int8_id)
  show ?thesis
  proof (cases "n = m")
    case True
    with assms w show ?thesis
      by (auto simp: vote_inner_def same_def memcmp_eq_def Let_def max_def)
  next
    case False
    with assms w show ?thesis
      by (auto simp: vote_inner_def same_def Let_def max_def)
  qed
qed

lemma inner_upto_0 [simp]: "inner_upto buf m s 0 = s"
  by (simp add: inner_upto_def)

lemma inner_upto_Suc: "inner_upto buf m s (Suc n) = vote_inner buf m (inner_upto buf m s n) n"
  by (simp add: inner_upto_def)

lemma inner_generic:
  assumes "length (counts s) = TFA_PACKETS" "m < TFA_PACKETS" "counts s ! m = 0" "n \<le> TFA_PACKETS"
  shows "length (counts (inner_upto buf m s n)) = TFA_PACKETS
       \<and> (\<forall>j. j \<noteq> m \<longrightarrow> counts (inner_upto buf m s n) ! j = counts s ! j)
       \<and> - 1 \<le> counts (inner_upto buf m s n) ! m
       \<and> counts (inner_upto buf m s n) ! m \<le> int n
       \<and> maxv0 s \<le> maxv0 (inner_upto buf m s n)
       \<and> (tie_free s \<longrightarrow> tie_free (inner_upto buf m s n))
       \<and> (maj buf v m \<longrightarrow> sel_ok buf v s \<longrightarrow> sel_ok buf v (inner_upto buf m s n))"
  using assms(4)
proof (induction n)
  case 0
  then show ?case using assms by simp
next
  case (Suc n)
  let ?t = "inner_upto buf m s n"
  from Suc have IH: "length (counts ?t) = TFA_PACKETS"
      "\<forall>j. j \<noteq> m \<longrightarrow> counts ?t ! j = counts s ! j"
      "- 1 \<le> counts ?t ! m" "counts ?t ! m \<le> int n" "maxv0 s \<le> maxv0 ?t"
      "tie_free s \<longrightarrow> tie_free ?t"
      "maj buf v m \<longrightarrow> sel_ok buf v s \<longrightarrow> sel_ok buf v ?t"
    by simp_all
  have n7: "n < TFA_PACKETS" using Suc.prems by simp
  have b: "counts ?t ! m < 127" using IH(4) n7 by (simp add: TFA_PACKETS_def)
  note st = vote_inner_step [of m ?t n buf, OF _ _ IH(3) b]
  have eq: "inner_upto buf m s (Suc n) =
      (if counts ?t ! n = 0 \<and> same buf m n then
         ?t\<lparr>counts := (counts ?t)[m := (if n = m then - 1 else counts ?t ! m + 1)],
           maxv0 := max (maxv0 ?t) (counts ?t ! m + 1),
           maxv1 := (if counts ?t ! m + 1 > maxv0 ?t then maxv0 ?t else maxv1 ?t),
           maxid := (if counts ?t ! m + 1 > maxv0 ?t then m else maxid ?t)\<rparr>
       else ?t)"
    using st IH(1) assms(2) n7 by (simp add: inner_upto_Suc)
  show ?case
  proof (cases "counts ?t ! n = 0 \<and> same buf m n")
    case False
    have "inner_upto buf m s (Suc n) = ?t" by (subst eq) (rule if_not_P [OF False])
    with IH show ?thesis by simp
  next
    case True
    let ?u = "inner_upto buf m s (Suc n)"
    have "?u = ?t\<lparr>counts := (counts ?t)[m := (if n = m then - 1 else counts ?t ! m + 1)],
           maxv0 := max (maxv0 ?t) (counts ?t ! m + 1),
           maxv1 := (if counts ?t ! m + 1 > maxv0 ?t then maxv0 ?t else maxv1 ?t),
           maxid := (if counts ?t ! m + 1 > maxv0 ?t then m else maxid ?t)\<rparr>"
      by (subst eq) (rule if_P [OF True])
    then have c: "counts ?u = (counts ?t)[m := (if n = m then - 1 else counts ?t ! m + 1)]"
      and v0: "maxv0 ?u = max (maxv0 ?t) (counts ?t ! m + 1)"
      and v1: "maxv1 ?u = (if counts ?t ! m + 1 > maxv0 ?t then maxv0 ?t else maxv1 ?t)"
      and vi: "maxid ?u = (if counts ?t ! m + 1 > maxv0 ?t then m else maxid ?t)"
      by simp_all
    have mt: "m < length (counts ?t)" using IH(1) assms(2) by simp
    have 1: "length (counts ?u) = TFA_PACKETS" using IH(1) by (simp add: c)
    have 2: "\<forall>j. j \<noteq> m \<longrightarrow> counts ?u ! j = counts s ! j" using IH(2) by (simp add: c)
    have 3: "- 1 \<le> counts ?u ! m" using IH(3) mt by (simp add: c)
    have 4: "counts ?u ! m \<le> int (Suc n)" using IH(4) mt by (simp add: c)
    have 5: "maxv0 s \<le> maxv0 ?u" using IH(5) by (simp add: v0)
    have 6: "tie_free s \<longrightarrow> tie_free ?u"
      using IH(6) by (auto simp: tie_free_def v0 v1 max_def)
    have 7: "maj buf v m \<longrightarrow> sel_ok buf v s \<longrightarrow> sel_ok buf v ?u"
      using IH(7) assms(2) by (auto simp: sel_ok_def v0 vi max_def)
    from 1 2 3 4 5 6 7 show ?thesis by blast
  qed
qed

lemma later_Suc:
  "later buf m (Suc n) = later buf m n + (if m < n \<and> same buf m n then 1 else 0)"
proof (cases "m < n \<and> same buf m n")
  case True
  then have "{j. m < j \<and> j < Suc n \<and> same buf m j} = insert n {j. m < j \<and> j < n \<and> same buf m j}"
    by (auto simp: less_Suc_eq)
  moreover have "finite {j. m < j \<and> j < n \<and> same buf m j}" by simp
  moreover have "n \<notin> {j. m < j \<and> j < n \<and> same buf m j}" by simp
  ultimately show ?thesis using True by (simp add: later_def)
next
  case False
  then have "{j. m < j \<and> j < Suc n \<and> same buf m j} = {j. m < j \<and> j < n \<and> same buf m j}"
    by (auto simp: less_Suc_eq)
  with False show ?thesis by (simp add: later_def)
qed

lemma later_mono: "n \<le> k \<Longrightarrow> later buf m n \<le> later buf m k"
  unfolding later_def by (rule card_mono) auto

lemma later_0: "n \<le> Suc m \<Longrightarrow> later buf m n = 0"
  by (auto simp: later_def)

lemma spare_Suc:
  "spare buf c m n =
     spare buf c m (Suc n)
     + (if n < TFA_PACKETS \<and> n \<noteq> m \<and> same buf m n \<and> c ! n = 0 then 1 else 0)"
proof (cases "n < TFA_PACKETS \<and> n \<noteq> m \<and> same buf m n \<and> c ! n = 0")
  case True
  let ?A = "{j. Suc n \<le> j \<and> j < TFA_PACKETS \<and> j \<noteq> m \<and> same buf m j \<and> c ! j = 0}"
  have "{j. n \<le> j \<and> j < TFA_PACKETS \<and> j \<noteq> m \<and> same buf m j \<and> c ! j = 0} = insert n ?A"
    using True by (auto simp: Suc_le_eq le_less)
  moreover have "finite ?A" by simp
  moreover have "n \<notin> ?A" by simp
  ultimately show ?thesis using True by (simp add: spare_def)
next
  case False
  then have "{j. n \<le> j \<and> j < TFA_PACKETS \<and> j \<noteq> m \<and> same buf m j \<and> c ! j = 0}
      = {j. Suc n \<le> j \<and> j < TFA_PACKETS \<and> j \<noteq> m \<and> same buf m j \<and> c ! j = 0}"
    by (auto simp: Suc_le_eq le_less)
  with False show ?thesis by (simp add: spare_def)
qed

lemma inner_upto_step:
  assumes "length (counts s) = TFA_PACKETS" "m < TFA_PACKETS" "counts s ! m = 0" "n < TFA_PACKETS"
  shows "inner_upto buf m s (Suc n) =
      (if (if n = m then counts (inner_upto buf m s n) ! m = 0 else counts s ! n = 0 \<and> same buf m n) then
         (inner_upto buf m s n)
           \<lparr>counts := (counts (inner_upto buf m s n))
                         [m := (if n = m then - 1 else counts (inner_upto buf m s n) ! m + 1)],
            maxv0 := max (maxv0 (inner_upto buf m s n)) (counts (inner_upto buf m s n) ! m + 1),
            maxv1 := (if counts (inner_upto buf m s n) ! m + 1 > maxv0 (inner_upto buf m s n)
                      then maxv0 (inner_upto buf m s n) else maxv1 (inner_upto buf m s n)),
            maxid := (if counts (inner_upto buf m s n) ! m + 1 > maxv0 (inner_upto buf m s n)
                      then m else maxid (inner_upto buf m s n))\<rparr>
       else inner_upto buf m s n)"
proof -
  let ?t = "inner_upto buf m s n"
  have n7: "n \<le> TFA_PACKETS" using assms(4) by simp
  note G = inner_generic [OF assms(1-3) n7, of buf "[]"]
  from G have g1: "length (counts ?t) = TFA_PACKETS" by blast
  from G have g4: "counts ?t ! m \<le> int n" by blast
  have b: "counts ?t ! m < 127" using g4 assms(4) by (simp add: TFA_PACKETS_def)
  have l: "m < length (counts ?t)" "n < length (counts ?t)" using g1 assms by simp_all
  from G have g3: "- 1 \<le> counts ?t ! m" by blast
  from G have cn: "n \<noteq> m \<Longrightarrow> counts ?t ! n = counts s ! n" by blast
  show ?thesis
    unfolding inner_upto_Suc vote_inner_step [OF l g3 b]
    using cn by (cases "n = m") simp_all
qed

lemma inner_first:
  assumes len: "length (counts s) = TFA_PACKETS" and m: "m < TFA_PACKETS"
    and zeros: "\<forall>j. m \<le> j \<and> j < TFA_PACKETS \<longrightarrow> counts s ! j = 0"
    and first: "first_of_group buf m"
    and small: "maj buf v m \<or> later buf m TFA_PACKETS \<le> 2"
    and ok: "sel_ok buf v s"
  shows "n \<le> TFA_PACKETS \<Longrightarrow>
         counts (inner_upto buf m s n) ! m = (if n \<le> m then 0 else int (later buf m n) - 1)
       \<and> (m < n \<longrightarrow> counts (inner_upto buf m s n) ! m \<le> maxv0 (inner_upto buf m s n)
                     \<and> 1 \<le> maxv0 (inner_upto buf m s n))
       \<and> sel_ok buf v (inner_upto buf m s n)"
proof (induction n)
  case 0
  from zeros m have "counts s ! m = 0" by simp
  with ok show ?case by simp
next
  case (Suc n)
  let ?t = "inner_upto buf m s n"
  let ?u = "inner_upto buf m s (Suc n)"
  have cm: "counts s ! m = 0" using zeros m by simp
  have n7: "n < TFA_PACKETS" using Suc.prems by simp
  have IH: "counts ?t ! m = (if n \<le> m then 0 else int (later buf m n) - 1)
       \<and> (m < n \<longrightarrow> counts ?t ! m \<le> maxv0 ?t \<and> 1 \<le> maxv0 ?t)
       \<and> sel_ok buf v ?t"
    by (rule Suc.IH) (use Suc.prems in simp)
  from IH have IH1: "counts ?t ! m = (if n \<le> m then 0 else int (later buf m n) - 1)" by blast
  from IH have IH2: "m < n \<longrightarrow> counts ?t ! m \<le> maxv0 ?t \<and> 1 \<le> maxv0 ?t" by blast
  from IH have IH3: "sel_ok buf v ?t" by blast
  note step = inner_upto_step [OF len m cm n7, of buf]
  have mt: "m < length (counts ?t)"
    using inner_generic [OF len m cm, of n buf "[]"] n7 m by simp
  consider (before) "n < m" | (self) "n = m" | (after) "m < n" by linarith
  then show ?case
  proof cases
    case before
    with first have "\<not> same buf m n" by (simp add: first_of_group_def)
    with before step have "?u = ?t" by simp
    with before IH1 IH3 show ?thesis by simp
  next
    case self
    with IH1 have c0: "counts ?t ! m = 0" by simp
    with self step have u: "?u = ?t\<lparr>counts := (counts ?t)[m := - 1],
        maxv0 := max (maxv0 ?t) 1,
        maxv1 := (if 1 > maxv0 ?t then maxv0 ?t else maxv1 ?t),
        maxid := (if 1 > maxv0 ?t then m else maxid ?t)\<rparr>" by simp
    have l0: "later buf m (Suc n) = 0" using self by (simp add: later_0)
    have cu: "counts ?u ! m = - 1" using mt by (simp add: u)
    have 1: "counts ?u ! m = (if Suc n \<le> m then 0 else int (later buf m (Suc n)) - 1)"
      using self cu l0 by simp
    have 2: "counts ?u ! m \<le> maxv0 ?u \<and> 1 \<le> maxv0 ?u"
      using mt by (simp add: u)
    have 3: "sel_ok buf v ?u"
      using IH3 by (auto simp: u sel_ok_def max_def)
    from 1 2 3 self show ?thesis by auto
  next
    case after
    from after n7 zeros have cn: "counts s ! n = 0" by simp
    from after IH1 have c: "counts ?t ! m = int (later buf m n) - 1" by simp
    show ?thesis
    proof (cases "same buf m n")
      case False
      with after step have "?u = ?t" by simp
      moreover have "later buf m (Suc n) = later buf m n" using False by (simp add: later_Suc)
      ultimately show ?thesis using after IH1 IH2 IH3 by simp
    next
      case True
      with after cn step have u: "?u = ?t\<lparr>counts := (counts ?t)[m := counts ?t ! m + 1],
          maxv0 := max (maxv0 ?t) (counts ?t ! m + 1),
          maxv1 := (if counts ?t ! m + 1 > maxv0 ?t then maxv0 ?t else maxv1 ?t),
          maxid := (if counts ?t ! m + 1 > maxv0 ?t then m else maxid ?t)\<rparr>" by simp
      have ls: "later buf m (Suc n) = later buf m n + 1" using True after by (simp add: later_Suc)
      have 1: "counts ?u ! m = (if Suc n \<le> m then 0 else int (later buf m (Suc n)) - 1)"
        using after mt by (simp add: u c ls)
      have 2: "counts ?u ! m \<le> maxv0 ?u \<and> 1 \<le> maxv0 ?u"
        using after IH2 mt by (auto simp: u max_def)
      have 3: "sel_ok buf v ?u"
      proof (cases "maj buf v m")
        case True
        with IH3 m show ?thesis by (auto simp: u sel_ok_def max_def)
      next
        case False
        with small have "later buf m TFA_PACKETS \<le> 2" by simp
        moreover have "later buf m (Suc n) \<le> later buf m TFA_PACKETS"
          using n7 by (intro later_mono) simp
        ultimately have "counts ?t ! m + 1 \<le> 1" using c ls by simp
        with IH3 show ?thesis by (auto simp: u sel_ok_def max_def)
      qed
      from 1 2 3 after show ?thesis by auto
    qed
  qed
qed

lemma inner_rest:
  assumes len: "length (counts s) = TFA_PACKETS" and m: "m < TFA_PACKETS"
    and cm: "counts s ! m = 0"
    and v0: "1 \<le> maxv0 s"
    and few: "spare buf (counts s) m 0 \<le> 1"
  shows "n \<le> TFA_PACKETS \<Longrightarrow>
         counts (inner_upto buf m s n) ! m + int (spare buf (counts s) m n) \<le> 1
       \<and> maxv0 (inner_upto buf m s n) = maxv0 s
       \<and> maxv1 (inner_upto buf m s n) = maxv1 s
       \<and> maxid (inner_upto buf m s n) = maxid s"
proof (induction n)
  case 0
  with cm few show ?case by simp
next
  case (Suc n)
  let ?t = "inner_upto buf m s n"
  let ?u = "inner_upto buf m s (Suc n)"
  have n7: "n < TFA_PACKETS" using Suc.prems by simp
  have IH: "counts ?t ! m + int (spare buf (counts s) m n) \<le> 1
       \<and> maxv0 ?t = maxv0 s \<and> maxv1 ?t = maxv1 s \<and> maxid ?t = maxid s"
    by (rule Suc.IH) (use Suc.prems in simp)
  from IH have IH1: "counts ?t ! m + int (spare buf (counts s) m n) \<le> 1" by blast
  from IH have IH2: "maxv0 ?t = maxv0 s" "maxv1 ?t = maxv1 s" "maxid ?t = maxid s" by blast+
  note step = inner_upto_step [OF len m cm n7, of buf]
  note sp = spare_Suc [of buf "counts s" m n]
  have mt: "m < length (counts ?t)"
    using inner_generic [OF len m cm, of n buf "[]"] n7 m by simp
  show ?case
  proof (cases "if n = m then counts ?t ! m = 0 else counts s ! n = 0 \<and> same buf m n")
    case False
    have "?u = ?t" by (subst step) (rule if_not_P [OF False])
    moreover have "spare buf (counts s) m (Suc n) \<le> spare buf (counts s) m n" using sp by simp
    ultimately show ?thesis using IH1 IH2 by simp
  next
    case True
    have u: "?u = ?t\<lparr>counts := (counts ?t)[m := (if n = m then - 1 else counts ?t ! m + 1)],
          maxv0 := max (maxv0 ?t) (counts ?t ! m + 1),
          maxv1 := (if counts ?t ! m + 1 > maxv0 ?t then maxv0 ?t else maxv1 ?t),
          maxid := (if counts ?t ! m + 1 > maxv0 ?t then m else maxid ?t)\<rparr>"
      by (subst step) (rule if_P [OF True])
    have small: "counts ?t ! m + 1 \<le> 1"
    proof (cases "n = m")
      case True
      with \<open>if n = m then counts ?t ! m = 0 else counts s ! n = 0 \<and> same buf m n\<close>
      show ?thesis by simp
    next
      case False
      with True n7 sp have "spare buf (counts s) m n = spare buf (counts s) m (Suc n) + 1" by simp
      with IH1 show ?thesis by simp
    qed
    then have noup: "\<not> counts ?t ! m + 1 > maxv0 ?t" using IH2(1) v0 by simp
    have 1: "counts ?u ! m + int (spare buf (counts s) m (Suc n)) \<le> 1"
    proof (cases "n = m")
      case True
      then have "spare buf (counts s) m (Suc n) = spare buf (counts s) m n" using sp by simp
      moreover have "counts ?t ! m = 0"
        using True \<open>if n = m then counts ?t ! m = 0 else counts s ! n = 0 \<and> same buf m n\<close> by simp
      moreover have "counts ?u ! m = - 1" unfolding u using True mt by simp
      ultimately show ?thesis using IH1 by simp
    next
      case False
      with True n7 sp have "spare buf (counts s) m n = spare buf (counts s) m (Suc n) + 1" by simp
      moreover have "counts ?u ! m = counts ?t ! m + 1" using False mt by (simp add: u)
      ultimately show ?thesis using IH1 by simp
    qed
    from noup IH2 have 2: "maxv0 ?u = maxv0 s" "maxv1 ?u = maxv1 s" "maxid ?u = maxid s"
      by (simp_all add: u max_def)
    from 1 2 show ?thesis by simp
  qed
qed

subsection \<open>Counting the captures of a group\<close>

lemma minority_small:
  assumes H: "4 \<le> card {j. j < TFA_PACKETS \<and> maj buf v j}"
  shows "card {j. j < TFA_PACKETS \<and> \<not> maj buf v j} \<le> 3"
proof -
  let ?A = "{j. j < TFA_PACKETS \<and> maj buf v j}"
  let ?B = "{j. j < TFA_PACKETS \<and> \<not> maj buf v j}"
  have "?A \<union> ?B = {..<TFA_PACKETS}" by auto
  moreover have "?A \<inter> ?B = {}" by auto
  moreover have "finite ?A" "finite ?B" by simp_all
  ultimately have "card ?A + card ?B = card {..<TFA_PACKETS}"
    by (metis card_Un_disjoint)
  with H show ?thesis by (simp add: TFA_PACKETS_def)
qed

lemma later_minority:
  assumes H: "4 \<le> card {j. j < TFA_PACKETS \<and> maj buf v j}"
    and m: "m < TFA_PACKETS" "\<not> maj buf v m"
  shows "later buf m TFA_PACKETS \<le> 2"
proof -
  let ?B = "{j. j < TFA_PACKETS \<and> \<not> maj buf v j}"
  have "{j. m < j \<and> j < TFA_PACKETS \<and> same buf m j} \<subseteq> ?B - {m}"
    using m(2) by (auto dest: maj_same same_sym)
  then have "later buf m TFA_PACKETS \<le> card (?B - {m})"
    unfolding later_def by (intro card_mono) simp_all
  also have "\<dots> = card ?B - 1" using m by simp
  also have "\<dots> \<le> 2" using minority_small [OF H] by simp
  finally show ?thesis .
qed

lemma later_majority:
  assumes H: "4 \<le> card {j. j < TFA_PACKETS \<and> maj buf v j}"
    and m: "m < TFA_PACKETS" "maj buf v m" "\<forall>i<m. \<not> maj buf v i"
  shows "3 \<le> later buf m TFA_PACKETS"
proof -
  let ?A = "{j. j < TFA_PACKETS \<and> maj buf v j}"
  have "?A - {m} \<subseteq> {j. m < j \<and> j < TFA_PACKETS \<and> same buf m j}"
  proof
    fix j assume j: "j \<in> ?A - {m}"
    then have "\<not> j < m" using m(3) by auto
    with j have "m < j" by auto
    moreover have "same buf m j" using j m(2) by (auto intro: maj_maj)
    ultimately show "j \<in> {j. m < j \<and> j < TFA_PACKETS \<and> same buf m j}" using j by simp
  qed
  then have "card (?A - {m}) \<le> later buf m TFA_PACKETS"
    unfolding later_def by (intro card_mono) simp_all
  moreover have "card (?A - {m}) = card ?A - 1" using m by simp
  ultimately show ?thesis using H by simp
qed

lemma first_of_majority:
  assumes "maj buf v m" "\<forall>i<m. \<not> maj buf v i"
  shows "first_of_group buf m"
  using assms by (auto simp: first_of_group_def dest: maj_same)

lemma spare_minority:
  assumes H: "4 \<le> card {j. j < TFA_PACKETS \<and> maj buf v j}"
    and m: "m < TFA_PACKETS" "\<not> maj buf v m" "\<not> first_of_group buf m"
    and firsts: "\<forall>f<m. first_of_group buf f \<longrightarrow> c ! f = int (later buf f TFA_PACKETS) - 1"
  shows "spare buf c m 0 \<le> 1"
proof -
  define f where "f = (LEAST j. same buf m j)"
  from m(3) obtain j0 where j0: "j0 < m" "same buf m j0" by (auto simp: first_of_group_def)
  have sf: "same buf m f" unfolding f_def by (rule LeastI [of _ m]) simp
  have fle: "\<And>j. same buf m j \<Longrightarrow> f \<le> j" unfolding f_def by (rule Least_le)
  have fm: "f < m" using fle [OF j0(2)] j0(1) by simp
  have f7: "f < TFA_PACKETS" using fm m(1) by simp
  have ff: "first_of_group buf f"
    unfolding first_of_group_def
  proof (intro allI impI)
    fix j assume "j < f"
    show "\<not> same buf f j"
    proof
      assume "same buf f j"
      with sf have "same buf m j" by (rule same_trans)
      from fle [OF this] \<open>j < f\<close> show False by simp
    qed
  qed
  have nf: "\<not> maj buf v f" using m(2) sf by (auto dest: maj_same same_sym)
  have cf: "c ! f = int (later buf f TFA_PACKETS) - 1" using firsts fm ff by simp
  have l2: "later buf f TFA_PACKETS \<le> 2" by (rule later_minority [OF H f7 nf])
  let ?G = "{j. j < TFA_PACKETS \<and> same buf m j}"
  let ?L = "{j. f < j \<and> j < TFA_PACKETS \<and> same buf f j}"
  have G: "?G = insert f ?L"
  proof (intro set_eqI iffI)
    fix j assume "j \<in> ?G"
    then have "f \<le> j" "same buf f j" "j < TFA_PACKETS"
      using fle sf by (auto intro: same_trans same_sym)
    then show "j \<in> insert f ?L" by auto
  next
    fix j assume "j \<in> insert f ?L"
    then show "j \<in> ?G" using sf f7 by (auto intro: same_trans)
  qed
  have cG: "card ?G = later buf f TFA_PACKETS + 1"
    unfolding G later_def by simp
  have mG: "m \<in> ?G" using m(1) by simp
  have fG: "f \<in> ?G" using sf f7 by simp
  let ?S = "{j. 0 \<le> j \<and> j < TFA_PACKETS \<and> j \<noteq> m \<and> same buf m j \<and> c ! j = 0}"
  show ?thesis
  proof (cases "later buf f TFA_PACKETS = 2")
    case True
    with cf have "c ! f \<noteq> 0" by simp
    then have "?S \<subseteq> ?G - {m} - {f}" by auto
    then have "card ?S \<le> card (?G - {m} - {f})" by (intro card_mono) simp_all
    also have "\<dots> = card ?G - 2" using mG fG fm by simp
    finally show ?thesis using True cG by (simp add: spare_def)
  next
    case False
    with l2 have "later buf f TFA_PACKETS \<le> 1" by simp
    moreover have "?S \<subseteq> ?G - {m}" by auto
    then have "card ?S \<le> card (?G - {m})" by (intro card_mono) simp_all
    moreover have "card (?G - {m}) = card ?G - 1" using mG by simp
    ultimately show ?thesis using cG by (simp add: spare_def)
  qed
qed

subsection \<open>The outer loop\<close>

lemma vote_inv_init: "vote_inv buf v 0 vote_init"
  by (simp add: vote_inv_def vote_init_def sel_ok_def tie_free_def)

lemma vote_outer_inner:
  "counts s ! m = 0 \<Longrightarrow> vote_outer buf TFA_PACKETS s m = inner_upto buf m s TFA_PACKETS"
  by (simp add: vote_outer_def inner_upto_def)

lemma vote_inv_step:
  assumes H: "4 \<le> card {j. j < TFA_PACKETS \<and> maj buf v j}"
    and m: "m < TFA_PACKETS" and inv: "vote_inv buf v m s"
  shows "vote_inv buf v (Suc m) (vote_outer buf TFA_PACKETS s m)"
proof -
  let ?u = "inner_upto buf m s TFA_PACKETS"
  from inv have len: "length (counts s) = TFA_PACKETS"
    and zeros: "\<forall>j. m \<le> j \<and> j < TFA_PACKETS \<longrightarrow> counts s ! j = 0"
    and firsts: "\<forall>f<m. first_of_group buf f \<longrightarrow> counts s ! f = int (later buf f TFA_PACKETS) - 1"
    and v0: "0 \<le> maxv0 s" "0 < m \<longrightarrow> 1 \<le> maxv0 s"
    and ok: "sel_ok buf v s" and tf: "tie_free s"
    and reached: "(\<exists>i<m. maj buf v i) \<longrightarrow> 2 \<le> maxv0 s"
    by (simp_all add: vote_inv_def)
  have cm: "counts s ! m = 0" using zeros m by simp
  have out: "vote_outer buf TFA_PACKETS s m = ?u" by (rule vote_outer_inner [OF cm])
  note G = inner_generic [OF len m cm order_refl, of buf v]
  from G have g1: "length (counts ?u) = TFA_PACKETS" by blast
  from G have g2: "\<And>j. j \<noteq> m \<Longrightarrow> counts ?u ! j = counts s ! j" by blast
  from G have g5: "maxv0 s \<le> maxv0 ?u" by blast
  from G tf have g6: "tie_free ?u" by blast
  from G ok have g7: "maj buf v m \<Longrightarrow> sel_ok buf v ?u" by blast
  have F: "counts ?u ! m = int (later buf m TFA_PACKETS) - 1
           \<and> counts ?u ! m \<le> maxv0 ?u \<and> 1 \<le> maxv0 ?u \<and> sel_ok buf v ?u"
    if fg: "first_of_group buf m"
  proof -
    have small: "maj buf v m \<or> later buf m TFA_PACKETS \<le> 2"
      using later_minority [OF H m] by blast
    from inner_first [OF len m zeros fg small ok order_refl] m show ?thesis by simp
  qed
  have b: "\<forall>j. Suc m \<le> j \<and> j < TFA_PACKETS \<longrightarrow> counts ?u ! j = 0"
    using zeros g2 by simp
  have c: "\<forall>f<Suc m. first_of_group buf f \<longrightarrow> counts ?u ! f = int (later buf f TFA_PACKETS) - 1"
  proof (intro allI impI)
    fix f assume f: "f < Suc m" "first_of_group buf f"
    show "counts ?u ! f = int (later buf f TFA_PACKETS) - 1"
    proof (cases "f = m")
      case True
      with F f(2) show ?thesis by simp
    next
      case False
      with f firsts g2 show ?thesis by simp
    qed
  qed
  have d: "0 \<le> maxv0 ?u" "1 \<le> maxv0 ?u"
  proof -
    show "0 \<le> maxv0 ?u" using v0(1) g5 by simp
    show "1 \<le> maxv0 ?u"
    proof (cases "m = 0")
      case True
      then have "first_of_group buf m" by (simp add: first_of_group_def)
      with F show ?thesis by simp
    next
      case False
      with v0(2) g5 show ?thesis by simp
    qed
  qed
  have e: "sel_ok buf v ?u"
  proof (cases "maj buf v m")
    case True
    then show ?thesis by (rule g7)
  next
    case nm: False
    show ?thesis
    proof (cases "first_of_group buf m")
      case True
      with F show ?thesis by simp
    next
      case False
      then have "m \<noteq> 0" by (auto simp: first_of_group_def)
      with v0(2) have v1: "1 \<le> maxv0 s" by simp
      have few: "spare buf (counts s) m 0 \<le> 1"
        by (rule spare_minority [OF H m nm False firsts])
      from inner_rest [OF len m cm v1 few order_refl]
      have "maxv0 ?u = maxv0 s" "maxid ?u = maxid s" by simp_all
      with ok show ?thesis by (simp add: sel_ok_def)
    qed
  qed
  have g: "(\<exists>i<Suc m. maj buf v i) \<longrightarrow> 2 \<le> maxv0 ?u"
  proof
    assume ex: "\<exists>i<Suc m. maj buf v i"
    show "2 \<le> maxv0 ?u"
    proof (cases "\<exists>i<m. maj buf v i")
      case True
      with reached g5 show ?thesis by simp
    next
      case False
      with ex have mm: "maj buf v m" by (metis less_Suc_eq)
      from False have none: "\<forall>i<m. \<not> maj buf v i" by simp
      have "first_of_group buf m" by (rule first_of_majority [OF mm none])
      with F have "int (later buf m TFA_PACKETS) - 1 \<le> maxv0 ?u" by simp
      moreover have "3 \<le> later buf m TFA_PACKETS" by (rule later_majority [OF H m mm none])
      ultimately show ?thesis by simp
    qed
  qed
  from g1 b c d e g6 g show ?thesis
    unfolding out vote_inv_def by simp
qed

lemma vote_inv_outer:
  assumes H: "4 \<le> card {j. j < TFA_PACKETS \<and> maj buf v j}"
  shows "m \<le> TFA_PACKETS \<Longrightarrow> vote_inv buf v m (outer_upto buf m)"
proof (induction m)
  case 0
  show ?case by (simp add: outer_upto_def vote_inv_init)
next
  case (Suc m)
  then have "vote_inv buf v m (outer_upto buf m)" "m < TFA_PACKETS" by simp_all
  from vote_inv_step [OF H this(2,1)] show ?case by (simp add: outer_upto_def)
qed

lemma vote_loops_majority:
  assumes H: "4 \<le> card {j. j < TFA_PACKETS \<and> maj buf v j}"
  shows "maxv0 (vote_loops buf TFA_PACKETS) \<noteq> maxv1 (vote_loops buf TFA_PACKETS)
       \<and> maxid (vote_loops buf TFA_PACKETS) < TFA_PACKETS
       \<and> maj buf v (maxid (vote_loops buf TFA_PACKETS))"
proof -
  let ?s = "vote_loops buf TFA_PACKETS"
  have s: "?s = outer_upto buf TFA_PACKETS" by (simp add: vote_loops_def outer_upto_def)
  from vote_inv_outer [OF H order_refl] have inv: "vote_inv buf v TFA_PACKETS ?s" by (simp add: s)
  have "{j. j < TFA_PACKETS \<and> maj buf v j} \<noteq> {}"
  proof
    assume "{j. j < TFA_PACKETS \<and> maj buf v j} = {}"
    then have "card {j. j < TFA_PACKETS \<and> maj buf v j} = 0" by simp
    with H show False by simp
  qed
  then have "\<exists>i<TFA_PACKETS. maj buf v i" by auto
  with inv have v2: "2 \<le> maxv0 ?s" by (simp add: vote_inv_def)
  from inv have "sel_ok buf v ?s" "tie_free ?s" by (simp_all add: vote_inv_def)
  with v2 show ?thesis by (auto simp: sel_ok_def tie_free_def)
qed

lemma majority_card:
  assumes len: "length d = TFA_PACKETS" and rows: "\<forall>c \<in> set d. length c = TFA_BUF_BYTES"
    and four: "4 \<le> count_list d v"
  shows "4 \<le> card {j. j < TFA_PACKETS \<and> maj d v j}"
    and "\<And>j. j < TFA_PACKETS \<Longrightarrow> maj d v j \<Longrightarrow> take TFA_BUF_BYTES (d ! j) = v"
proof -
  from four have "count_list d v \<noteq> 0" by simp
  then have "v \<in> set d" by (simp add: count_list_0_iff)
  with rows have lv: "length v = TFA_BUF_BYTES" by simp
  have m: "maj d v j \<longleftrightarrow> v = d ! j" if "j < TFA_PACKETS" for j
  proof -
    from that len have "d ! j \<in> set d" by simp
    with rows have "length (d ! j) = TFA_BUF_BYTES" by simp
    with lv show ?thesis by (auto simp: maj_def memcmp_eq_def)
  qed
  have "count_list d v = card {i. i < length d \<and> v = d ! i}"
    by (simp add: count_list_eq_length_filter length_filter_conv_card)
  also have "{i. i < length d \<and> v = d ! i} = {j. j < TFA_PACKETS \<and> maj d v j}"
    using m len by auto
  finally show "4 \<le> card {j. j < TFA_PACKETS \<and> maj d v j}" using four by simp
  show "take TFA_BUF_BYTES (d ! j) = v" if "j < TFA_PACKETS" "maj d v j" for j
    using that lv by (simp add: maj_def memcmp_eq_def)
qed

lemma proc_packets_majority:
  assumes flag: "tfa_flags t AND TFA_NEW_PACKETS \<noteq> 0"
    and seven: "tfa_packets t = 7" "length (tfa_data t) = TFA_PACKETS"
    and rows: "\<forall>c \<in> set (tfa_data t). length c = TFA_BUF_BYTES"
    and four: "4 \<le> count_list (tfa_data t) v"
  shows "tfa_proc_packets t =
           Some (1, t\<lparr>tfa_packet := v,
                        tfa_flags := (tfa_flags t AND NOT TFA_NEW_PACKETS) OR TFA_NEW_PACKET\<rparr>)"
proof -
  let ?d = "tfa_data t"
  let ?s = "vote_loops ?d TFA_PACKETS"
  note M = majority_card [OF seven(2) rows four]
  from vote_loops_majority [OF M(1)]
  have a: "maxv0 ?s \<noteq> maxv1 ?s" and b: "maxid ?s < TFA_PACKETS" and c: "maj ?d v (maxid ?s)"
    by blast+
  have p: "take TFA_BUF_BYTES (?d ! maxid ?s) = v" by (rule M(2) [OF b c])
  have tk: "take TFA_PACKETS ?d = ?d" using seven(2) by simp
  have u: "unat (tfa_packets t) = TFA_PACKETS" using seven(1) by (simp add: TFA_PACKETS_def)
  show ?thesis
    using flag a p by (simp add: tfa_proc_packets_def Let_def tk u)
qed

text \<open>
  Claim C3.  When the hand-off structure holds a new burst of 7 captures of which at
  least 4 equal the packet \<open>v\<close>, \<^verbatim>\<open>tfa_proc_packets\<close> returns 1, stores \<open>v\<close> in
  \<^verbatim>\<open>packet\<close>, clears \<^verbatim>\<open>TFA_NEW_PACKETS\<close> and sets \<^verbatim>\<open>TFA_NEW_PACKET\<close>; and it does so
  for every reordering of the 7 captures.
\<close>

theorem majority_of_seven_selected:
  assumes flag: "tfa_flags t AND TFA_NEW_PACKETS \<noteq> 0"
    and seven: "tfa_packets t = 7" "length (tfa_data t) = TFA_PACKETS"
    and rows: "\<forall>c \<in> set (tfa_data t). length c = TFA_BUF_BYTES"
    and four: "4 \<le> count_list (tfa_data t) v"
  shows "tfa_proc_packets t =
           Some (1, t\<lparr>tfa_packet := v,
                        tfa_flags := (tfa_flags t AND NOT TFA_NEW_PACKETS) OR TFA_NEW_PACKET\<rparr>)
       \<and> (\<forall>d. mset d = mset (tfa_data t) \<longrightarrow>
             tfa_proc_packets (t\<lparr>tfa_data := d\<rparr>) =
               Some (1, t\<lparr>tfa_data := d, tfa_packet := v,
                            tfa_flags := (tfa_flags t AND NOT TFA_NEW_PACKETS) OR TFA_NEW_PACKET\<rparr>))"
proof (intro conjI allI impI)
  show "tfa_proc_packets t =
           Some (1, t\<lparr>tfa_packet := v,
                        tfa_flags := (tfa_flags t AND NOT TFA_NEW_PACKETS) OR TFA_NEW_PACKET\<rparr>)"
    by (rule proc_packets_majority [OF flag seven rows four])
next
  fix d assume p: "mset d = mset (tfa_data t)"
  let ?t = "t\<lparr>tfa_data := d\<rparr>"
  have 1: "tfa_flags ?t AND TFA_NEW_PACKETS \<noteq> 0" using flag by simp
  have 2: "tfa_packets ?t = 7" using seven(1) by simp
  have 3: "length (tfa_data ?t) = TFA_PACKETS" using seven(2) mset_eq_length [OF p] by simp
  have 4: "\<forall>c \<in> set (tfa_data ?t). length c = TFA_BUF_BYTES"
    using rows mset_eq_setD [OF p] by simp
  have "count_list d v = count_list (tfa_data t) v"
    using p by (metis count_mset)
  then have 5: "4 \<le> count_list (tfa_data ?t) v" using four by simp
  from proc_packets_majority [OF 1 2 3 4 5]
  show "tfa_proc_packets ?t =
               Some (1, t\<lparr>tfa_data := d, tfa_packet := v,
                            tfa_flags := (tfa_flags t AND NOT TFA_NEW_PACKETS) OR TFA_NEW_PACKET\<rparr>)"
    by simp
qed

theorem majority_of_seven_selected_witness:
  "tfa_flags (tfa_blank\<lparr>tfa_data := burst_example, tfa_packets := 7, tfa_flags := 1\<rparr>) AND TFA_NEW_PACKETS \<noteq> 0
   \<and> length (tfa_data (tfa_blank\<lparr>tfa_data := burst_example, tfa_packets := 7, tfa_flags := 1\<rparr>)) = TFA_PACKETS
   \<and> 4 \<le> count_list (tfa_data (tfa_blank\<lparr>tfa_data := burst_example, tfa_packets := 7, tfa_flags := 1\<rparr>))
             [45, 248, 159, 9, 9]
   \<and> tfa_proc_packets (tfa_blank\<lparr>tfa_data := burst_example, tfa_packets := 7, tfa_flags := 1\<rparr>)
       = Some (1, tfa_blank\<lparr>tfa_data := burst_example, tfa_packets := 7,
                             tfa_packet := [45, 248, 159, 9, 9], tfa_flags := 2\<rparr>)
   \<and> mset (rev burst_example) = mset burst_example
   \<and> tfa_proc_packets (tfa_blank\<lparr>tfa_data := rev burst_example, tfa_packets := 7, tfa_flags := 1\<rparr>)
       = Some (1, tfa_blank\<lparr>tfa_data := rev burst_example, tfa_packets := 7,
                             tfa_packet := [45, 248, 159, 9, 9], tfa_flags := 2\<rparr>)"
proof -
  let ?t = "tfa_blank\<lparr>tfa_data := burst_example, tfa_packets := 7, tfa_flags := 1\<rparr>"
  have 1: "tfa_flags ?t AND TFA_NEW_PACKETS \<noteq> 0" by (simp add: TFA_NEW_PACKETS_def)
  have 2: "tfa_packets ?t = 7" by simp
  have 3: "length (tfa_data ?t) = TFA_PACKETS" by (simp add: burst_example_def TFA_PACKETS_def)
  have 4: "\<forall>c \<in> set (tfa_data ?t). length c = TFA_BUF_BYTES"
    by (simp add: burst_example_def TFA_BUF_BYTES_def)
  have 5: "4 \<le> count_list (tfa_data ?t) [45, 248, 159, 9, 9]" by (simp add: burst_example_def)
  have 6: "mset (rev burst_example) = mset (tfa_data ?t)" by simp
  have f: "(tfa_flags ?t AND NOT TFA_NEW_PACKETS) OR TFA_NEW_PACKET = 2"
    by (simp add: TFA_NEW_PACKETS_def TFA_NEW_PACKET_def)
  note T = majority_of_seven_selected [OF 1 2 3 4 5]
  from T have a: "tfa_proc_packets ?t = Some (1, ?t\<lparr>tfa_packet := [45, 248, 159, 9, 9],
      tfa_flags := (tfa_flags ?t AND NOT TFA_NEW_PACKETS) OR TFA_NEW_PACKET\<rparr>)" by blast
  from T 6 have b: "tfa_proc_packets (?t\<lparr>tfa_data := rev burst_example\<rparr>) =
      Some (1, ?t\<lparr>tfa_data := rev burst_example, tfa_packet := [45, 248, 159, 9, 9],
                 tfa_flags := (tfa_flags ?t AND NOT TFA_NEW_PACKETS) OR TFA_NEW_PACKET\<rparr>)" by blast
  from a have a': "tfa_proc_packets ?t = Some (1, tfa_blank\<lparr>tfa_data := burst_example, tfa_packets := 7,
                             tfa_packet := [45, 248, 159, 9, 9], tfa_flags := 2\<rparr>)"
    unfolding f by (simp add: tfa_blank_def)
  from b have b': "tfa_proc_packets (tfa_blank\<lparr>tfa_data := rev burst_example, tfa_packets := 7, tfa_flags := 1\<rparr>)
       = Some (1, tfa_blank\<lparr>tfa_data := rev burst_example, tfa_packets := 7,
                             tfa_packet := [45, 248, 159, 9, 9], tfa_flags := 2\<rparr>)"
    unfolding f by (simp add: tfa_blank_def)
  from 1 3 5 a' b' show ?thesis by simp
qed

subsection \<open>The tie test\<close>

text \<open>
  \<^verbatim>\<open>maxv[1]\<close> receives the previous value of \<^verbatim>\<open>maxv[0]\<close> whenever \<^verbatim>\<open>maxv[0]\<close> grows, so
  it stays strictly below it, and the first capture always brings \<^verbatim>\<open>maxv[0]\<close> to 1.
  The test \<^verbatim>\<open>maxv[0] == maxv[1]\<close> therefore fails for every burst of 1 to 7 captures,
  whatever they are: such a burst is always accepted.
\<close>

lemma vote_outer_nonempty:
  assumes N: "N \<le> TFA_PACKETS"
  shows "m \<le> N \<Longrightarrow>
         length (counts (foldl (vote_outer buf N) vote_init [0..<m])) = TFA_PACKETS
       \<and> (\<forall>j. m \<le> j \<and> j < TFA_PACKETS \<longrightarrow> counts (foldl (vote_outer buf N) vote_init [0..<m]) ! j = 0)
       \<and> tie_free (foldl (vote_outer buf N) vote_init [0..<m])
       \<and> (0 < m \<longrightarrow> 1 \<le> maxv0 (foldl (vote_outer buf N) vote_init [0..<m]))"
proof (induction m)
  case 0
  show ?case by (simp add: vote_init_def tie_free_def)
next
  case (Suc m)
  let ?s = "foldl (vote_outer buf N) vote_init [0..<m]"
  let ?u = "inner_upto buf m ?s N"
  have IH: "length (counts ?s) = TFA_PACKETS
       \<and> (\<forall>j. m \<le> j \<and> j < TFA_PACKETS \<longrightarrow> counts ?s ! j = 0)
       \<and> tie_free ?s \<and> (0 < m \<longrightarrow> 1 \<le> maxv0 ?s)"
    by (rule Suc.IH) (use Suc.prems in simp)
  from IH have len: "length (counts ?s) = TFA_PACKETS" by blast
  from IH have zeros: "\<forall>j. m \<le> j \<and> j < TFA_PACKETS \<longrightarrow> counts ?s ! j = 0" by blast
  from IH have tf: "tie_free ?s" by blast
  from IH have v0: "0 < m \<longrightarrow> 1 \<le> maxv0 ?s" by blast
  have m: "m < TFA_PACKETS" using Suc.prems N by simp
  have cm: "counts ?s ! m = 0" using zeros m by simp
  have out: "foldl (vote_outer buf N) vote_init [0..<Suc m] = ?u"
    using cm by (simp add: vote_outer_def inner_upto_def)
  note G = inner_generic [OF len m cm N, of buf "[]"]
  from G have g1: "length (counts ?u) = TFA_PACKETS" by blast
  from G have g2: "\<And>j. j \<noteq> m \<Longrightarrow> counts ?u ! j = counts ?s ! j" by blast
  from G have g5: "maxv0 ?s \<le> maxv0 ?u" by blast
  from G tf have g6: "tie_free ?u" by blast
  have b: "\<forall>j. Suc m \<le> j \<and> j < TFA_PACKETS \<longrightarrow> counts ?u ! j = 0"
    using zeros g2 by simp
  have d: "1 \<le> maxv0 ?u"
  proof (cases "m = 0")
    case True
    have fg: "first_of_group buf m" using True by (simp add: first_of_group_def)
    have small: "maj buf (buf ! m) m \<or> later buf m TFA_PACKETS \<le> 2"
      by (simp add: maj_def memcmp_eq_def)
    have ok: "sel_ok buf (buf ! m) ?s" using True by (simp add: sel_ok_def vote_init_def)
    from inner_first [OF len m zeros fg small ok N] Suc.prems show ?thesis by simp
  next
    case False
    with v0 g5 show ?thesis by simp
  qed
  from g1 b g6 d show ?case unfolding out by simp
qed

lemma nonempty_burst_never_tied:
  assumes "0 < N" "N \<le> TFA_PACKETS"
  shows "maxv0 (vote_loops buf N) \<noteq> maxv1 (vote_loops buf N)"
proof -
  from vote_outer_nonempty [OF assms(2) order_refl, of buf] assms(1)
  have "tie_free (vote_loops buf N)" "1 \<le> maxv0 (vote_loops buf N)"
    by (simp_all add: vote_loops_def)
  then show ?thesis by (auto simp: tie_free_def)
qed

lemma nonempty_burst_always_accepted:
  assumes "tfa_flags t AND TFA_NEW_PACKETS \<noteq> 0"
    and "0 < unat (tfa_packets t)" "unat (tfa_packets t) \<le> TFA_PACKETS"
  shows "\<exists>t'. tfa_proc_packets t = Some (1, t')"
  using assms nonempty_burst_never_tied [OF assms(2,3)]
  by (simp add: tfa_proc_packets_def Let_def)

text \<open>
  Claim C1 (the code departs from it).  A burst of six captures, three equal to one
  packet and three equal to another, is a tie between two groups of the same size;
  the reconciler nevertheless returns 1, stores the first group's bytes in
  \<^verbatim>\<open>packet\<close> and sets \<^verbatim>\<open>TFA_NEW_PACKET\<close>.
\<close>

theorem tie_not_detected:
  "tfa_proc_packets
     \<lparr>tfa_data = [[1,0,0,0,0],[1,0,0,0,0],[1,0,0,0,0],[2,0,0,0,0],[2,0,0,0,0],[2,0,0,0,0],[0,0,0,0,0]],
      tfa_packets = 6, tfa_packet = [9,9,9,9,9], tfa_flags = 1\<rparr>
   = Some (1, \<lparr>tfa_data = [[1,0,0,0,0],[1,0,0,0,0],[1,0,0,0,0],[2,0,0,0,0],[2,0,0,0,0],[2,0,0,0,0],[0,0,0,0,0]],
      tfa_packets = 6, tfa_packet = [1,0,0,0,0], tfa_flags = 2\<rparr>)"
  by code_simp

end
